theory Spec2Isabelle
  imports Complex_Main "HOL-Library.Word"
begin

unbundle bit_operations_syntax

section \<open>Data model of bloom.c\<close>

text \<open>
  The header bloom.h is not among the sources, so the struct and the two status macros
  are typed from their uses in bloom.c: \<open>estimated_elements\<close>, \<open>number_bits\<close> and
  \<open>elements_added\<close> are \<open>uint64_t\<close>, \<open>false_positive_probability\<close> is a \<open>float\<close>,
  \<open>number_hashes\<close> receives an \<open>unsigned int\<close>, \<open>bloom_length\<close> receives a \<open>long\<close>,
  \<open>bloom\<close> is a pointer to bytes and \<open>hash_function\<close> a function pointer.
\<close>

type_synonym byte = "8 word"

text \<open>
  Modelled from the spec: \<open>BLOOM_SUCCESS\<close> and \<open>BLOOM_FAILURE\<close> are macros of bloom.h;
  the spec's error surface has exactly the two outcomes, Success and Failure.
\<close>

datatype status = BLOOM_SUCCESS | BLOOM_FAILURE

text \<open>
  What C leaves undefined is a fault of the model: a null pointer dereferenced, an array
  read or written outside its bounds, an integer division by zero, a signed counter
  incremented past \<open>INT_MAX\<close>.
\<close>

datatype fault = NullPointer | OutOfBounds | DivideByZero | SignedOverflow

text \<open>
  \<open>typedef uint64_t* (*HashFunction)(int num_hashes, uint64_t num_bits, char *str)\<close>.
  The returned array is a list; a \<open>char *\<close> argument is the string up to its terminator.
\<close>

type_synonym HashFunction = "int \<Rightarrow> 64 word \<Rightarrow> string \<Rightarrow> fault + 64 word list"

text \<open>
  A \<open>float\<close> is its 32-bit object representation (IEEE 754 binary32), which is what
  \<open>fwrite\<close> and \<open>fread\<close> move. A pointer is an option: \<open>None\<close> is \<open>NULL\<close>; the bit array
  is owned by the filter, so the pointer is modelled by the bytes it points to.
\<close>

record BloomFilter =
  estimated_elements :: "64 word"
  false_positive_probability :: "32 word"
  number_hashes :: "32 word"
  number_bits :: "64 word"
  bloom :: "byte list option"
  bloom_length :: int
  elements_added :: "64 word"
  hash_function :: "HashFunction option"

section \<open>The bit macros\<close>

text \<open>
  \<open>#define set_bit(A,k) (A[((k) / 8)] |= (1 << ((k) % 8)))\<close>: the byte is promoted to
  \<open>int\<close>, or-ed with the mask and stored back truncated to a byte.
\<close>

definition set_bit_c :: "byte list option \<Rightarrow> 64 word \<Rightarrow> fault + byte list option" where
  "set_bit_c A k =
     (case A of
        None \<Rightarrow> Inl NullPointer
      | Some bs \<Rightarrow>
          (let i = unat (k div 8) in
           if i < length bs
           then Inr (Some (bs[i := ucast ((ucast (bs ! i) :: 32 word) OR push_bit (unat (k mod 8)) 1)]))
           else Inl OutOfBounds))"

text \<open>\<open>#define check_bit(A,k) (A[((k) / 8)] & (1 << ((k) % 8)))\<close>, an \<open>int\<close>.\<close>

definition check_bit_c :: "byte list option \<Rightarrow> 64 word \<Rightarrow> fault + 32 word" where
  "check_bit_c A k =
     (case A of
        None \<Rightarrow> Inl NullPointer
      | Some bs \<Rightarrow>
          (let i = unat (k div 8) in
           if i < length bs
           then Inr ((ucast (bs ! i) :: 32 word) AND push_bit (unat (k mod 8)) 1)
           else Inl OutOfBounds))"

section \<open>Floats: comparison with a constant\<close>

definition float_sign :: "32 word \<Rightarrow> bool" where
  "float_sign f = bit f 31"

definition float_exponent :: "32 word \<Rightarrow> nat" where
  "float_exponent f = unat (take_bit 8 (drop_bit 23 f))"

definition float_mantissa :: "32 word \<Rightarrow> nat" where
  "float_mantissa f = unat (take_bit 23 f)"

definition float_is_nan :: "32 word \<Rightarrow> bool" where
  "float_is_nan f = (float_exponent f = 255 \<and> float_mantissa f \<noteq> 0)"

definition float_is_inf :: "32 word \<Rightarrow> bool" where
  "float_is_inf f = (float_exponent f = 255 \<and> float_mantissa f = 0)"

text \<open>The value of a finite float: subnormal when the exponent field is 0.\<close>

definition float_value :: "32 word \<Rightarrow> real" where
  "float_value f =
     (if float_sign f then - 1 else 1) *
     (if float_exponent f = 0 then real (float_mantissa f) / 2 ^ 149
      else real (2 ^ 23 + float_mantissa f) * 2 ^ float_exponent f / 2 ^ 150)"

text \<open>
  \<open>f <= c\<close> and \<open>f >= c\<close> for a float \<open>f\<close> and a finite constant \<open>c\<close>: the float is
  promoted to \<open>double\<close> exactly; every comparison with a NaN is false.
\<close>

definition float_le :: "32 word \<Rightarrow> real \<Rightarrow> bool" where
  "float_le f c =
     (if float_is_nan f then False
      else if float_is_inf f then float_sign f
      else float_value f \<le> c)"

definition float_ge :: "32 word \<Rightarrow> real \<Rightarrow> bool" where
  "float_ge f c =
     (if float_is_nan f then False
      else if float_is_inf f then \<not> float_sign f
      else float_value f \<ge> c)"

section \<open>Sizing\<close>

text \<open>
  The three double-precision expressions of \<open>calculate_optimal_hashes\<close> go through
  \<open>log\<close>, \<open>ceil\<close> and \<open>round\<close> of the C library and through conversions between
  floating and integer types. They are parameters of the model, each a function of the
  operands the expression reads:
  \<^item> \<open>bits_expr n p\<close> is \<open>ceil((-n * log(p)) / LOG_TWO_SQUARED)\<close> converted to \<open>uint64_t\<close>;
  \<^item> \<open>hashes_expr m n\<close> is \<open>round(log(2.0) * m / n)\<close> converted to \<open>unsigned int\<close>;
  \<^item> \<open>length_expr m\<close> is \<open>ceil(m / (CHAR_LEN * 1.0))\<close> converted to \<open>long\<close>.
\<close>

record double_arith =
  bits_expr :: "int \<Rightarrow> 32 word \<Rightarrow> 64 word"
  hashes_expr :: "64 word \<Rightarrow> int \<Rightarrow> 32 word"
  length_expr :: "64 word \<Rightarrow> int"

definition calculate_optimal_hashes :: "double_arith \<Rightarrow> BloomFilter \<Rightarrow> BloomFilter" where
  "calculate_optimal_hashes fp bf =
     (let n = sint (estimated_elements bf);
          p = false_positive_probability bf;
          m = bits_expr fp n p;
          k = hashes_expr fp m n;
          num_pos = length_expr fp m
      in bf\<lparr>number_hashes := k, number_bits := m, bloom_length := num_pos\<rparr>)"









section \<open>The default hash function\<close>

text \<open>
  The digest is a parameter \<open>md5\<close> of the model (the code calls OpenSSL's
  \<open>MD5_Init\<close>, \<open>MD5_Update\<close>, \<open>MD5_Final\<close>); it fills the buffer
  \<open>digest[MD5_DIGEST_LENGTH]\<close>. Integers in memory are in the machine's byte order,
  little-endian here.
\<close>

definition c_string_bytes :: "string \<Rightarrow> byte list" where
  "c_string_bytes s = map (\<lambda>c. word_of_nat (of_char c)) (takeWhile (\<lambda>c. c \<noteq> CHR 0x00) s)"

text \<open>Reading an integer from memory: the first byte is the least significant.\<close>

fun from_le :: "byte list \<Rightarrow> 'a::len word" where
  "from_le [] = 0"
| "from_le (b # bs) = ucast b OR push_bit 8 (from_le bs)"

definition from_le64 :: "byte list \<Rightarrow> 64 word" where
  "from_le64 bs = from_le bs"

definition from_le32 :: "byte list \<Rightarrow> 32 word" where
  "from_le32 bs = from_le bs"

text \<open>The first \<open>n\<close> bytes of an integer in memory, and the 8-byte and 4-byte objects.\<close>

fun to_le :: "nat \<Rightarrow> 'a::len word \<Rightarrow> byte list" where
  "to_le 0 w = []"
| "to_le (Suc n) w = ucast w # to_le n (drop_bit 8 w)"

definition to_le64 :: "64 word \<Rightarrow> byte list" where
  "to_le64 w =
     [ucast w, ucast (drop_bit 8 w), ucast (drop_bit 16 w), ucast (drop_bit 24 w),
      ucast (drop_bit 32 w), ucast (drop_bit 40 w), ucast (drop_bit 48 w), ucast (drop_bit 56 w)]"

definition to_le32 :: "32 word \<Rightarrow> byte list" where
  "to_le32 w = [ucast w, ucast (drop_bit 8 w), ucast (drop_bit 16 w), ucast (drop_bit 24 w)]"

definition MD5_DIGEST_LENGTH :: nat where
  "MD5_DIGEST_LENGTH = 16"

text \<open>
  The loop of \<open>md5_hash_default\<close>: step 0 digests the string, every later step the
  \<open>MD5_DIGEST_LENGTH\<close> bytes of the buffer; \<open>results[i]\<close> is the first 8 bytes of the
  buffer read as a \<open>uint64_t\<close>, modulo \<open>num_bits\<close>.
\<close>

function md5_loop ::
  "(byte list \<Rightarrow> byte list) \<Rightarrow> int \<Rightarrow> 64 word \<Rightarrow> string \<Rightarrow> int \<Rightarrow> byte list \<Rightarrow> 64 word list
     \<Rightarrow> fault + 64 word list" where
  "md5_loop md5 num_hashes num_bits str i digest results =
     (if i < num_hashes
      then (let digest' = md5 (if i = 0 then c_string_bytes str
                                else take MD5_DIGEST_LENGTH digest) in
            if num_bits = 0 then Inl DivideByZero
            else md5_loop md5 num_hashes num_bits str (i + 1) digest'
                   (results[nat i := from_le64 (take 8 digest') mod num_bits]))
      else Inr results)"
  by pat_completeness auto
termination
  by (relation "measure (\<lambda>(md5, num_hashes, num_bits, str, i, digest, results). nat (num_hashes - i))")
     auto

text \<open>\<open>calloc(num_hashes, sizeof(uint64_t))\<close>, then the loop; the buffer starts unset.\<close>

definition md5_hash_default :: "(byte list \<Rightarrow> byte list) \<Rightarrow> HashFunction" where
  "md5_hash_default md5 num_hashes num_bits str =
     md5_loop md5 num_hashes num_bits str 0 [] (replicate (nat num_hashes) 0)"

section \<open>Construction and teardown\<close>

definition bloom_filter_set_hash_function ::
  "(byte list \<Rightarrow> byte list) \<Rightarrow> BloomFilter \<Rightarrow> HashFunction option \<Rightarrow> BloomFilter" where
  "bloom_filter_set_hash_function md5 bf hf =
     (case hf of
        None \<Rightarrow> bf\<lparr>hash_function := Some (md5_hash_default md5)\<rparr>
      | Some h \<Rightarrow> bf\<lparr>hash_function := Some h\<rparr>)"

text \<open>\<open>calloc(n, sizeof(char))\<close> for a \<open>long n\<close>: a negative count is no allocation.\<close>

definition c_calloc :: "int \<Rightarrow> byte list option" where
  "c_calloc n = (if 0 \<le> n then Some (replicate (nat n) 0) else None)"

definition bloom_filter_init ::
  "double_arith \<Rightarrow> (byte list \<Rightarrow> byte list) \<Rightarrow> BloomFilter \<Rightarrow> 64 word \<Rightarrow> 32 word
     \<Rightarrow> HashFunction option \<Rightarrow> status \<times> BloomFilter" where
  "bloom_filter_init fp md5 bf estimated_elements' false_positive_rate hf =
     (if estimated_elements' \<le> 0 \<or> unat estimated_elements' > 2 ^ 64 - 1
      then (BLOOM_FAILURE, bf)
      else if float_le false_positive_rate 0 \<or> float_ge false_positive_rate 1
      then (BLOOM_FAILURE, bf)
      else
        (let bf1 = bf\<lparr>estimated_elements := estimated_elements',
                     false_positive_probability := false_positive_rate\<rparr>;
             bf2 = calculate_optimal_hashes fp bf1;
             bf3 = bf2\<lparr>bloom := c_calloc (bloom_length bf2)\<rparr>;
             bf4 = bf3\<lparr>elements_added := 0\<rparr>
         in (BLOOM_SUCCESS, bloom_filter_set_hash_function md5 bf4 hf)))"

text \<open>\<open>free(bf->bloom)\<close> releases the bytes; the pointer is then set to \<open>NULL\<close>.\<close>

definition bloom_filter_destroy :: "BloomFilter \<Rightarrow> status \<times> BloomFilter" where
  "bloom_filter_destroy bf =
     (BLOOM_SUCCESS,
      bf\<lparr>bloom := None,
         elements_added := 0,
         estimated_elements := 0,
         false_positive_probability := 0,
         number_hashes := 0,
         number_bits := 0,
         hash_function := None\<rparr>)"

section \<open>Insertion and query\<close>

text \<open>
  \<open>for (i = 0; i < bf->number_hashes; i++) set_bit(bf->bloom, hashes[i]);\<close> with an
  \<open>int i\<close>: \<open>k\<close> is the bound read as unsigned.
\<close>

function add_loop ::
  "64 word list \<Rightarrow> nat \<Rightarrow> nat \<Rightarrow> byte list option \<Rightarrow> fault + byte list option" where
  "add_loop hashes k i A =
     (if i < k
      then (if i < length hashes
            then (case set_bit_c A (hashes ! i) of
                    Inl f \<Rightarrow> Inl f
                  | Inr A' \<Rightarrow>
                      if i = 2147483647 then Inl SignedOverflow
                      else add_loop hashes k (i + 1) A')
            else Inl OutOfBounds)
      else Inr A)"
  by pat_completeness auto
termination
  by (relation "measure (\<lambda>(hashes, k, i, A). k - i)") auto

definition bloom_filter_add_string ::
  "BloomFilter \<Rightarrow> string \<Rightarrow> fault + status \<times> BloomFilter" where
  "bloom_filter_add_string bf str =
     (case hash_function bf of
        None \<Rightarrow> Inl NullPointer
      | Some h \<Rightarrow>
          (case h (sint (number_hashes bf)) (number_bits bf) str of
             Inl f \<Rightarrow> Inl f
           | Inr hashes \<Rightarrow>
               (case add_loop hashes (unat (number_hashes bf)) 0 (bloom bf) of
                  Inl f \<Rightarrow> Inl f
                | Inr A' \<Rightarrow>
                    Inr (BLOOM_SUCCESS,
                         bf\<lparr>bloom := A', elements_added := elements_added bf + 1\<rparr>))))"

text \<open>
  The query loop: \<open>r\<close> starts as \<open>BLOOM_SUCCESS\<close> and the first clear bit sets it to
  \<open>BLOOM_FAILURE\<close> and leaves the loop. The filter is threaded through and returned, so
  that what the call does to it is a statement about the model.
\<close>

function check_loop ::
  "64 word list \<Rightarrow> nat \<Rightarrow> nat \<Rightarrow> BloomFilter \<Rightarrow> status \<Rightarrow> fault + status \<times> BloomFilter" where
  "check_loop hashes k i bf r =
     (if i < k
      then (if i < length hashes
            then (case check_bit_c (bloom bf) (hashes ! i) of
                    Inl f \<Rightarrow> Inl f
                  | Inr t \<Rightarrow>
                      if t = 0 then Inr (BLOOM_FAILURE, bf)
                      else if i = 2147483647 then Inl SignedOverflow
                      else check_loop hashes k (i + 1) bf r)
            else Inl OutOfBounds)
      else Inr (r, bf))"
  by pat_completeness auto
termination
  by (relation "measure (\<lambda>(hashes, k, i, bf, r). k - i)") auto

definition bloom_filter_check_string ::
  "BloomFilter \<Rightarrow> string \<Rightarrow> fault + status \<times> BloomFilter" where
  "bloom_filter_check_string bf str =
     (case hash_function bf of
        None \<Rightarrow> Inl NullPointer
      | Some h \<Rightarrow>
          (case h (sint (number_hashes bf)) (number_bits bf) str of
             Inl f \<Rightarrow> Inl f
           | Inr hashes \<Rightarrow> check_loop hashes (unat (number_hashes bf)) 0 bf BLOOM_SUCCESS))"

section \<open>The current false-positive rate\<close>

text \<open>
  \<open>int num = (bf->number_hashes * -1 * bf->elements_added);\<close> The product
  \<open>number_hashes * -1\<close> is taken in \<open>unsigned int\<close>, widened to \<open>uint64_t\<close> for the
  product with \<open>elements_added\<close>, and the result is cut to the 32 bits of an \<open>int\<close>,
  read as two's complement by \<open>sint\<close>.
\<close>

definition rate_num :: "BloomFilter \<Rightarrow> 32 word" where
  "rate_num bf = ucast ((ucast (number_hashes bf * (- 1)) :: 64 word) * elements_added bf)"

text \<open>
  The rest of the function in exact real arithmetic, for \<open>double d = (num * 1.0) /
  (bf->number_bits * 1.0); double e = exp(d); return pow((1 - e), bf->number_hashes);\<close>
  The rounding of the double operations and of the conversion to \<open>float\<close> is left out.
\<close>

definition bloom_filter_current_false_positive_rate :: "BloomFilter \<Rightarrow> real" where
  "bloom_filter_current_false_positive_rate bf =
     (let num = sint (rate_num bf);
          d = (real_of_int num * 1) / (real (unat (number_bits bf)) * 1);
          e = exp d
      in (1 - e) ^ unat (number_hashes bf))"

section \<open>Persistence\<close>

text \<open>
  The file system holds the bytes of each file; whether a path can be opened for
  writing (mode \<open>wb\<close>, which creates or truncates) or for update (mode \<open>r+b\<close>, which
  needs the file to exist) is the environment's. Writes to an open stream succeed.
\<close>

record filesystem =
  files :: "string \<Rightarrow> byte list option"
  writable :: "string \<Rightarrow> bool"
  updatable :: "string \<Rightarrow> bool"

definition fopen_wb :: "filesystem \<Rightarrow> string \<Rightarrow> byte list option" where
  "fopen_wb fs filepath = (if writable fs filepath then Some [] else None)"

definition fopen_rpb :: "filesystem \<Rightarrow> string \<Rightarrow> byte list option" where
  "fopen_rpb fs filepath = (if updatable fs filepath then files fs filepath else None)"

text \<open>
  \<open>fwrite(bf->bloom, bf->bloom_length, 1, fp)\<close>: one element of \<open>bloom_length\<close> bytes,
  nothing when the size is 0.
\<close>

definition fwrite_bloom :: "byte list option \<Rightarrow> int \<Rightarrow> fault + byte list" where
  "fwrite_bloom A n =
     (if n = 0 then Inr []
      else (case A of
              None \<Rightarrow> Inl NullPointer
            | Some bs \<Rightarrow>
                if 0 \<le> n \<and> nat n \<le> length bs then Inr (take (nat n) bs)
                else Inl OutOfBounds))"

definition bloom_filter_export ::
  "filesystem \<Rightarrow> BloomFilter \<Rightarrow> string \<Rightarrow> fault + status \<times> filesystem" where
  "bloom_filter_export fs bf filepath =
     (case fopen_wb fs filepath of
        None \<Rightarrow> Inr (BLOOM_FAILURE, fs)
      | Some fp0 \<Rightarrow>
          (let fp1 = fp0 @ to_le64 (estimated_elements bf);
               fp2 = fp1 @ to_le64 (elements_added bf);
               fp3 = fp2 @ to_le32 (false_positive_probability bf)
           in case fwrite_bloom (bloom bf) (bloom_length bf) of
                Inl f \<Rightarrow> Inl f
              | Inr bytes \<Rightarrow>
                  Inr (BLOOM_SUCCESS, fs\<lparr>files := (files fs)(filepath := Some (fp3 @ bytes))\<rparr>)))"

text \<open>
  \<open>fread\<close> into an object of \<open>length obj\<close> bytes: the bytes the stream still has
  overwrite the front of the object, the rest of the object stays, and the return count
  is not looked at. The result is the object and the rest of the stream.
\<close>

definition fread_obj :: "byte list \<Rightarrow> byte list \<Rightarrow> byte list \<times> byte list" where
  "fread_obj obj fp =
     (take (length obj) fp @ drop (length (take (length obj) fp)) obj, drop (length obj) fp)"

definition bloom_filter_import ::
  "double_arith \<Rightarrow> (byte list \<Rightarrow> byte list) \<Rightarrow> filesystem \<Rightarrow> BloomFilter \<Rightarrow> string
     \<Rightarrow> HashFunction option \<Rightarrow> fault + status \<times> BloomFilter" where
  "bloom_filter_import fp md5 fs bf filepath hf =
     (case fopen_rpb fs filepath of
        None \<Rightarrow> Inr (BLOOM_FAILURE, bf)
      | Some fp0 \<Rightarrow>
          (let (b1, fp1) = fread_obj (to_le64 (estimated_elements bf)) fp0;
               bf1 = bf\<lparr>estimated_elements := from_le64 b1\<rparr>;
               (b2, fp2) = fread_obj (to_le64 (elements_added bf1)) fp1;
               bf2 = bf1\<lparr>elements_added := from_le64 b2\<rparr>;
               (b3, fp3) = fread_obj (to_le32 (false_positive_probability bf2)) fp2;
               bf3 = bf2\<lparr>false_positive_probability := from_le32 b3\<rparr>;
               bf4 = calculate_optimal_hashes fp bf3
           in case c_calloc (bloom_length bf4) of
                None \<Rightarrow>
                  if fp3 = [] then Inr (BLOOM_SUCCESS, bloom_filter_set_hash_function md5 (bf4\<lparr>bloom := None\<rparr>) hf)
                  else Inl NullPointer
              | Some zeros \<Rightarrow>
                  Inr (BLOOM_SUCCESS,
                       bloom_filter_set_hash_function md5 (bf4\<lparr>bloom := Some (fst (fread_obj zeros fp3))\<rparr>) hf)))"

section \<open>Notions of the specification\<close>

text \<open>Bit \<open>n\<close> of the bit store: byte \<open>n div 8\<close>, bit \<open>n mod 8\<close> counted from the least significant.\<close>

definition test_bit :: "byte list \<Rightarrow> nat \<Rightarrow> bool" where
  "test_bit bs n = (n < 8 * length bs \<and> bit (bs ! (n div 8)) (n mod 8))"

definition set_positions :: "byte list \<Rightarrow> nat set" where
  "set_positions bs = set (filter (test_bit bs) [0..<8 * length bs])"

definition count_set_bits :: "byte list \<Rightarrow> nat" where
  "count_set_bits bs = length (filter (test_bit bs) [0..<8 * length bs])"

text \<open>
  The contract of a hash strategy at one item: \<open>count\<close> indices, each below the
  modulus.
\<close>

definition hash_contract :: "HashFunction \<Rightarrow> int \<Rightarrow> 64 word \<Rightarrow> string \<Rightarrow> bool" where
  "hash_contract h count modulus item =
     (case h count modulus item of
        Inl f \<Rightarrow> False
      | Inr hs \<Rightarrow> int (length hs) = count \<and> list_all (\<lambda>v. v < modulus) hs)"

text \<open>
  A filter as construction leaves it and insertion keeps it: the bit array is allocated
  with \<open>bloom_length\<close> bytes, which hold \<open>number_bits\<close> bits, and a hash strategy is
  bound.
\<close>

definition filter_ok :: "BloomFilter \<Rightarrow> bool" where
  "filter_ok bf =
     (case bloom bf of
        None \<Rightarrow> False
      | Some bs \<Rightarrow>
          int (length bs) = bloom_length bf \<and> unat (number_bits bf) \<le> 8 * length bs
          \<and> hash_function bf \<noteq> None)"

definition hashes_ok :: "BloomFilter \<Rightarrow> string \<Rightarrow> bool" where
  "hashes_ok bf item =
     (case hash_function bf of
        None \<Rightarrow> False
      | Some h \<Rightarrow> hash_contract h (sint (number_hashes bf)) (number_bits bf) item)"

text \<open>The indices the bound hash strategy gives for an item; none when the call faults.\<close>

definition hash_indices :: "BloomFilter \<Rightarrow> string \<Rightarrow> 64 word list" where
  "hash_indices bf item =
     (case hash_function bf of
        None \<Rightarrow> []
      | Some h \<Rightarrow>
          (case h (sint (number_hashes bf)) (number_bits bf) item of
             Inl f \<Rightarrow> []
           | Inr hs \<Rightarrow> hs))"

text \<open>A sequence of insertions, stopping at the first fault.\<close>

fun add_strings :: "BloomFilter \<Rightarrow> string list \<Rightarrow> fault + BloomFilter" where
  "add_strings bf [] = Inr bf"
| "add_strings bf (x # xs) =
     (case bloom_filter_add_string bf x of
        Inl f \<Rightarrow> Inl f
      | Inr (r, bf') \<Rightarrow> add_strings bf' xs)"

text \<open>The answer of a query: \<open>Some True\<close> for "possibly present", \<open>None\<close> for a fault.\<close>

definition contains :: "BloomFilter \<Rightarrow> string \<Rightarrow> bool option" where
  "contains bf item =
     (case bloom_filter_check_string bf item of
        Inl f \<Rightarrow> None
      | Inr (r, bf') \<Rightarrow> Some (r = BLOOM_SUCCESS))"

text \<open>
  The chained digests as the specification words them: the first digest is of the
  item's bytes, each later one of the previous digest.
\<close>

fun chained_digest :: "(byte list \<Rightarrow> byte list) \<Rightarrow> string \<Rightarrow> nat \<Rightarrow> byte list" where
  "chained_digest md5 item 0 = md5 (c_string_bytes item)"
| "chained_digest md5 item (Suc i) = md5 (chained_digest md5 item i)"

section \<open>A small filter for concrete runs\<close>

text \<open>
  A caller's hash strategy: index \<open>i\<close> of an item is its length plus \<open>i\<close>, reduced
  modulo the number of bits.
\<close>

definition sample_hash :: HashFunction where
  "sample_hash count modulus item =
     (if modulus = 0 then Inl DivideByZero
      else Inr (map (\<lambda>i. word_of_nat (length item + i) mod modulus) [0..<nat count]))"

text \<open>
  The filter of capacity 2 and rate 0.5 (the float \<open>0x3F000000\<close>): 3 bits, 1 hash,
  1 byte, nothing inserted.
\<close>

definition sample_filter :: BloomFilter where
  "sample_filter =
     \<lparr>estimated_elements = 2, false_positive_probability = 0x3F000000, number_hashes = 1,
      number_bits = 3, bloom = Some [0], bloom_length = 1, elements_added = 0,
      hash_function = Some sample_hash\<rparr>"

text \<open>A stand-in for the digest: 16 bytes, each the length of the input.\<close>

definition sample_md5 :: "byte list \<Rightarrow> byte list" where
  "sample_md5 bs = replicate 16 (word_of_nat (length bs))"

text \<open>
  The double expressions at the operands of the concrete runs: capacity 2 at rate 0.5
  gives 3 bits and 1 hash; capacity 10000 at rate 0.01 (the float \<open>0x3C23D70A\<close>) gives
  95851 bits and 7 hashes; capacity \<open>10 ^ 9\<close> at rate 0.01 gives 9585058424 bits and 7
  hashes. The byte count is exact below \<open>2 ^ 53\<close> bits.
\<close>

definition sample_arith :: double_arith where
  "sample_arith =
     \<lparr>bits_expr = (\<lambda>n p. if n = 2 \<and> p = 0x3F000000 then 3
                          else if n = 10000 \<and> p = 0x3C23D70A then 95851
                          else if n = 1000000000 \<and> p = 0x3C23D70A then 9585058424 else 0),
      hashes_expr = (\<lambda>m n. if m = 3 \<and> n = 2 then 1
                            else if m = 95851 \<and> n = 10000 then 7
                            else if m = 9585058424 \<and> n = 1000000000 then 7 else 0),
      length_expr = (\<lambda>m. (uint m + 7) div 8)\<rparr>"

text \<open>A file system with one path that can be opened, and no file yet.\<close>

definition sample_fs :: filesystem where
  "sample_fs =
     \<lparr>files = (\<lambda>p. None), writable = (\<lambda>p. p = ''filter.blm''),
      updatable = (\<lambda>p. p = ''filter.blm'')\<rparr>"

text \<open>
  The filter of capacity \<open>10 ^ 9\<close> at rate 0.01 (9585058424 bits, 7 hashes, 1198132303
  bytes) after 306783379 insertions. The content of the bit array plays no part in what
  is computed from this filter below.
\<close>

definition large_filter :: BloomFilter where
  "large_filter =
     \<lparr>estimated_elements = 1000000000, false_positive_probability = 0x3C23D70A,
      number_hashes = 7, number_bits = 9585058424, bloom = c_calloc 1198132303,
      bloom_length = 1198132303, elements_added = 306783379,
      hash_function = Some sample_hash\<rparr>"

text \<open>
  The estimate as the specification words it:
  \<open>(1 - exp(-k * elements_added / m))^k\<close>, in exact arithmetic.
\<close>

definition spec_rate :: "BloomFilter \<Rightarrow> real" where
  "spec_rate bf =
     (1 - exp (- (real (unat (number_hashes bf)) * real (unat (elements_added bf)))
                / real (unat (number_bits bf)))) ^ unat (number_hashes bf)"

section \<open>The bit macros and the two loops\<close>

declare add_loop.simps [simp del] check_loop.simps [simp del] md5_loop.simps [simp del]

lemma or_mask_byte:
  "s < 8 \<Longrightarrow> bit (ucast ((ucast (b :: byte) :: 32 word) OR 2 ^ s) :: byte) j = (bit b j \<or> j = s)"
  by (auto simp: bit_simps dest: bit_imp_le_length)

lemma and_mask_byte:
  "s < 8 \<Longrightarrow> ((ucast (b :: byte) :: 32 word) AND 2 ^ s = 0) = (\<not> bit b s)"
  by (simp add: and_exp_eq_0_iff_not_bit bit_simps)

lemma ex_from:
  assumes "(i::nat) < k"
  shows "(\<exists>j. i \<le> j \<and> j < k \<and> P j) = (P i \<or> (\<exists>j. i + 1 \<le> j \<and> j < k \<and> P j))"
proof
  assume "\<exists>j. i \<le> j \<and> j < k \<and> P j"
  then obtain j where j: "i \<le> j" "j < k" "P j" by blast
  show "P i \<or> (\<exists>j. i + 1 \<le> j \<and> j < k \<and> P j)"
  proof (cases "j = i")
    case True
    with j show ?thesis by simp
  next
    case False
    with j have "i + 1 \<le> j" by simp
    with j show ?thesis by blast
  qed
next
  assume "P i \<or> (\<exists>j. i + 1 \<le> j \<and> j < k \<and> P j)"
  then show "\<exists>j. i \<le> j \<and> j < k \<and> P j"
  proof
    assume "P i"
    with assms show ?thesis by blast
  next
    assume "\<exists>j. i + 1 \<le> j \<and> j < k \<and> P j"
    then obtain j where "i + 1 \<le> j" "j < k" "P j" by blast
    then have "i \<le> j \<and> j < k \<and> P j" by simp
    then show ?thesis by blast
  qed
qed

lemma all_from:
  assumes "(i::nat) < k"
  shows "(\<forall>j. i \<le> j \<and> j < k \<longrightarrow> P j) = (P i \<and> (\<forall>j. i + 1 \<le> j \<and> j < k \<longrightarrow> P j))"
  using ex_from [OF assms, of "\<lambda>j. \<not> P j"] by blast

lemma unat_div8: "unat ((k :: 64 word) div 8) = unat k div 8"
  by (simp add: unat_div)

lemma unat_mod8: "unat ((k :: 64 word) mod 8) = unat k mod 8"
  by (simp add: unat_mod)

lemma set_bit_c_Some:
  assumes "unat k < 8 * length bs"
  shows "\<exists>bs'. set_bit_c (Some bs) k = Inr (Some bs') \<and> length bs' = length bs
           \<and> (\<forall>n. test_bit bs' n = (test_bit bs n \<or> n = unat k))"
proof -
  let ?i = "unat k div 8" and ?s = "unat k mod 8"
  let ?b = "ucast ((ucast (bs ! ?i) :: 32 word) OR push_bit ?s 1) :: byte"
  from assms have i: "?i < length bs" by auto
  have s: "?s < 8" by simp
  have eq: "set_bit_c (Some bs) k = Inr (Some (bs[?i := ?b]))"
    using i by (simp add: set_bit_c_def Let_def unat_div8 unat_mod8)
  have "test_bit (bs[?i := ?b]) n = (test_bit bs n \<or> n = unat k)" for n
  proof (cases "n div 8 = ?i")
    case True
    then have "n < 8 * length bs" using i by auto
    moreover have "(n mod 8 = ?s) = (n = unat k)"
      using True div_mult_mod_eq [of n 8] div_mult_mod_eq [of "unat k" 8] by auto
    ultimately show ?thesis
      using True i by (simp add: test_bit_def or_mask_byte [OF s])
  next
    case False
    then have "n \<noteq> unat k" by auto
    then show ?thesis using False by (simp add: test_bit_def)
  qed
  then show ?thesis using eq by simp
qed

lemma check_bit_c_Some:
  assumes "unat k < 8 * length bs"
  shows "\<exists>t. check_bit_c (Some bs) k = Inr t \<and> (t = 0) = (\<not> test_bit bs (unat k))"
proof -
  from assms have i: "unat k div 8 < length bs" by auto
  have s: "unat k mod 8 < 8" by simp
  show ?thesis
    using i assms by (simp add: check_bit_c_def Let_def unat_div8 unat_mod8 test_bit_def and_mask_byte [OF s])
qed

lemma add_loop_Some:
  assumes "k \<le> length hashes" "k \<le> 2147483647"
    and "\<forall>j. i \<le> j \<and> j < k \<longrightarrow> unat (hashes ! j) < 8 * length bs"
  shows "\<exists>bs'. add_loop hashes k i (Some bs) = Inr (Some bs') \<and> length bs' = length bs
           \<and> (\<forall>n. test_bit bs' n = (test_bit bs n \<or> (\<exists>j. i \<le> j \<and> j < k \<and> n = unat (hashes ! j))))"
  using assms
proof (induction "k - i" arbitrary: i bs)
  case 0
  then have "\<not> i < k" by simp
  then show ?case by (subst add_loop.simps) auto
next
  case (Suc d)
  then have ik: "i < k" by simp
  with Suc.prems have il: "i < length hashes" and ni: "i \<noteq> 2147483647" by auto
  from Suc.prems ik have "unat (hashes ! i) < 8 * length bs" by auto
  from set_bit_c_Some [OF this] obtain bs1 where
    s1: "set_bit_c (Some bs) (hashes ! i) = Inr (Some bs1)" and l1: "length bs1 = length bs"
    and t1: "\<forall>n. test_bit bs1 n = (test_bit bs n \<or> n = unat (hashes ! i))" by blast
  have d: "d = k - (i + 1)" using Suc.hyps(2) by simp
  have b: "\<forall>j. i + 1 \<le> j \<and> j < k \<longrightarrow> unat (hashes ! j) < 8 * length bs1"
    using Suc.prems(3) l1 by auto
  from Suc.hyps(1) [OF d Suc.prems(1) Suc.prems(2) b] obtain bs' where
    r: "add_loop hashes k (i + 1) (Some bs1) = Inr (Some bs')" and l: "length bs' = length bs1"
    and t: "\<forall>n. test_bit bs' n = (test_bit bs1 n \<or> (\<exists>j. i + 1 \<le> j \<and> j < k \<and> n = unat (hashes ! j)))"
    by blast
  have "add_loop hashes k i (Some bs) = Inr (Some bs')"
    using ik il ni s1 r by (subst add_loop.simps) simp
  moreover have "test_bit bs' n = (test_bit bs n \<or> (\<exists>j. i \<le> j \<and> j < k \<and> n = unat (hashes ! j)))" for n
  proof -
    have "(\<exists>j. i \<le> j \<and> j < k \<and> n = unat (hashes ! j))
          = (n = unat (hashes ! i) \<or> (\<exists>j. i + 1 \<le> j \<and> j < k \<and> n = unat (hashes ! j)))"
      using ik by (rule ex_from)
    then show ?thesis using t t1 by auto
  qed
  ultimately show ?case using l l1 by auto
qed

lemma check_loop_Some:
  assumes "bloom bf = Some bs" "k \<le> length hashes" "k \<le> 2147483647"
    and "\<forall>j. i \<le> j \<and> j < k \<longrightarrow> unat (hashes ! j) < 8 * length bs"
  shows "check_loop hashes k i bf r =
           Inr (if \<forall>j. i \<le> j \<and> j < k \<longrightarrow> test_bit bs (unat (hashes ! j)) then r else BLOOM_FAILURE, bf)"
  using assms
proof (induction "k - i" arbitrary: i)
  case 0
  then have "\<not> i < k" by simp
  then show ?case by (subst check_loop.simps) auto
next
  case (Suc d)
  then have ik: "i < k" by simp
  with Suc.prems have il: "i < length hashes" and ni: "i \<noteq> 2147483647" by auto
  from Suc.prems ik have "unat (hashes ! i) < 8 * length bs" by auto
  from check_bit_c_Some [OF this] obtain t where
    c: "check_bit_c (Some bs) (hashes ! i) = Inr t" and t: "(t = 0) = (\<not> test_bit bs (unat (hashes ! i)))"
    by blast
  show ?case
  proof (cases "t = 0")
    case True
    then have "\<not> (\<forall>j. i \<le> j \<and> j < k \<longrightarrow> test_bit bs (unat (hashes ! j)))"
      using t ik by auto
    moreover have "check_loop hashes k i bf r = Inr (BLOOM_FAILURE, bf)"
      using ik il c True Suc.prems(1) by (subst check_loop.simps) simp
    ultimately show ?thesis by auto
  next
    case False
    have d: "d = k - (i + 1)" using Suc.hyps(2) by simp
    have b: "\<forall>j. i + 1 \<le> j \<and> j < k \<longrightarrow> unat (hashes ! j) < 8 * length bs"
      using Suc.prems(4) by auto
    have ih: "check_loop hashes k (i + 1) bf r =
           Inr (if \<forall>j. i + 1 \<le> j \<and> j < k \<longrightarrow> test_bit bs (unat (hashes ! j)) then r else BLOOM_FAILURE, bf)"
      by (rule Suc.hyps(1) [OF d Suc.prems(1) Suc.prems(2) Suc.prems(3) b])
    have step: "check_loop hashes k i bf r = check_loop hashes k (i + 1) bf r"
      using ik il ni c False Suc.prems(1) by (subst check_loop.simps) simp
    have "(\<forall>j. i \<le> j \<and> j < k \<longrightarrow> test_bit bs (unat (hashes ! j)))
          = (\<forall>j. i + 1 \<le> j \<and> j < k \<longrightarrow> test_bit bs (unat (hashes ! j)))"
      using False t all_from [OF ik, of "\<lambda>j. test_bit bs (unat (hashes ! j))"] by simp
    then show ?thesis using step ih by simp
  qed
qed

section \<open>Insertion and query under the hash contract\<close>

lemma sint_nonneg_unat:
  assumes "0 \<le> sint (w :: 32 word)"
  shows "sint w = int (unat w)" and "unat w \<le> 2147483647"
proof -
  have lt: "sint w < 2 ^ (LENGTH(32) - 1)" by (rule sint_lt)
  have "uint w = take_bit LENGTH(32) (sint w)" by (rule uint_sint)
  also have "\<dots> = sint w"
    using assms lt by (simp add: take_bit_int_eq_self)
  finally have u: "uint w = sint w" .
  with assms show "sint w = int (unat w)" unfolding unat_eq_nat_uint by linarith
  from lt have "sint w < 2147483648" by simp
  with u show "unat w \<le> 2147483647" unfolding unat_eq_nat_uint by linarith
qed

lemma hashes_okD:
  assumes "hashes_ok bf x"
  shows "\<exists>h. hash_function bf = Some h
           \<and> h (sint (number_hashes bf)) (number_bits bf) x = Inr (hash_indices bf x)"
    and "length (hash_indices bf x) = unat (number_hashes bf)"
    and "unat (number_hashes bf) \<le> 2147483647"
    and "\<forall>v\<in>set (hash_indices bf x). v < number_bits bf"
proof -
  from assms obtain h hs where h: "hash_function bf = Some h"
    and hs: "h (sint (number_hashes bf)) (number_bits bf) x = Inr hs"
    and len: "int (length hs) = sint (number_hashes bf)"
    and lt: "list_all (\<lambda>v. v < number_bits bf) hs"
    by (auto simp: hashes_ok_def hash_contract_def split: option.splits sum.splits)
  have hi: "hash_indices bf x = hs" using h hs by (simp add: hash_indices_def)
  show "\<exists>h. hash_function bf = Some h
           \<and> h (sint (number_hashes bf)) (number_bits bf) x = Inr (hash_indices bf x)"
    using h hs hi by simp
  from len have nn: "0 \<le> sint (number_hashes bf)" by linarith
  have "length hs = unat (number_hashes bf)"
    using sint_nonneg_unat(1) [OF nn] len by linarith
  then show "length (hash_indices bf x) = unat (number_hashes bf)"
    by (simp only: hi)
  show "unat (number_hashes bf) \<le> 2147483647" by (rule sint_nonneg_unat(2) [OF nn])
  show "\<forall>v\<in>set (hash_indices bf x). v < number_bits bf"
    using lt hi by (simp add: list_all_iff)
qed

lemma filter_okD:
  assumes "filter_ok bf"
  shows "\<exists>bs. bloom bf = Some bs \<and> int (length bs) = bloom_length bf
           \<and> unat (number_bits bf) \<le> 8 * length bs"
  using assms by (auto simp: filter_ok_def split: option.splits)

lemma indices_in_store:
  assumes "hashes_ok bf x" "bloom bf = Some bs" "unat (number_bits bf) \<le> 8 * length bs"
  shows "\<forall>j. i \<le> j \<and> j < unat (number_hashes bf) \<longrightarrow> unat (hash_indices bf x ! j) < 8 * length bs"
proof (intro allI impI)
  fix j assume j: "i \<le> j \<and> j < unat (number_hashes bf)"
  then have "hash_indices bf x ! j \<in> set (hash_indices bf x)"
    using hashes_okD(2) [OF assms(1)] by simp
  then have "hash_indices bf x ! j < number_bits bf"
    using hashes_okD(4) [OF assms(1)] by blast
  then have "unat (hash_indices bf x ! j) < unat (number_bits bf)"
    by (simp add: word_less_nat_alt)
  then show "unat (hash_indices bf x ! j) < 8 * length bs" using assms(3) by linarith
qed

lemma nth_range_set:
  "(\<exists>j. 0 \<le> j \<and> j < length hs \<and> n = f (hs ! j)) = (n \<in> f ` set hs)"
  by (simp add: image_iff in_set_conv_nth Bex_def) blast

lemma nth_range_all:
  "(\<forall>j. 0 \<le> j \<and> j < length hs \<longrightarrow> P (hs ! j)) = (\<forall>v\<in>set hs. P v)"
  by (simp add: all_set_conv_all_nth)

lemma add_string_ok:
  assumes "filter_ok bf" "hashes_ok bf x"
  shows "\<exists>bs bs'. bloom bf = Some bs
           \<and> bloom_filter_add_string bf x =
               Inr (BLOOM_SUCCESS, bf\<lparr>bloom := Some bs', elements_added := elements_added bf + 1\<rparr>)
           \<and> length bs' = length bs
           \<and> (\<forall>n. test_bit bs' n = (test_bit bs n \<or> n \<in> unat ` set (hash_indices bf x)))"
proof -
  from filter_okD [OF assms(1)] obtain bs where bs: "bloom bf = Some bs"
    and m: "unat (number_bits bf) \<le> 8 * length bs" by blast
  from hashes_okD(1) [OF assms(2)] obtain h where h: "hash_function bf = Some h"
    and hs: "h (sint (number_hashes bf)) (number_bits bf) x = Inr (hash_indices bf x)" by blast
  let ?hs = "hash_indices bf x" and ?k = "unat (number_hashes bf)"
  have len: "length ?hs = ?k" by (rule hashes_okD(2) [OF assms(2)])
  then have le: "?k \<le> length ?hs" by simp
  from add_loop_Some [OF le hashes_okD(3) [OF assms(2)] indices_in_store [OF assms(2) bs m, of 0]]
  obtain bs' where a: "add_loop ?hs ?k 0 (Some bs) = Inr (Some bs')" and l: "length bs' = length bs"
    and t: "\<forall>n. test_bit bs' n = (test_bit bs n \<or> (\<exists>j. 0 \<le> j \<and> j < ?k \<and> n = unat (?hs ! j)))"
    by blast
  have "bloom_filter_add_string bf x =
          Inr (BLOOM_SUCCESS, bf\<lparr>bloom := Some bs', elements_added := elements_added bf + 1\<rparr>)"
    using h hs a bs by (simp add: bloom_filter_add_string_def)
  moreover have "\<forall>n. test_bit bs' n = (test_bit bs n \<or> n \<in> unat ` set ?hs)"
    using t nth_range_set [of ?hs _ unat] len by simp
  ultimately show ?thesis using bs l by blast
qed

lemma check_string_ok:
  assumes "filter_ok bf" "hashes_ok bf x" "bloom bf = Some bs"
  shows "bloom_filter_check_string bf x =
           Inr (if \<forall>v\<in>set (hash_indices bf x). test_bit bs (unat v) then BLOOM_SUCCESS else BLOOM_FAILURE, bf)"
proof -
  from filter_okD [OF assms(1)] assms(3) have m: "unat (number_bits bf) \<le> 8 * length bs" by auto
  from hashes_okD(1) [OF assms(2)] obtain h where h: "hash_function bf = Some h"
    and hs: "h (sint (number_hashes bf)) (number_bits bf) x = Inr (hash_indices bf x)" by blast
  let ?hs = "hash_indices bf x" and ?k = "unat (number_hashes bf)"
  have len: "length ?hs = ?k" by (rule hashes_okD(2) [OF assms(2)])
  then have le: "?k \<le> length ?hs" by simp
  have "check_loop ?hs ?k 0 bf BLOOM_SUCCESS =
          Inr (if \<forall>j. 0 \<le> j \<and> j < ?k \<longrightarrow> test_bit bs (unat (?hs ! j)) then BLOOM_SUCCESS else BLOOM_FAILURE, bf)"
    by (rule check_loop_Some [OF assms(3) le hashes_okD(3) [OF assms(2)] indices_in_store [OF assms(2,3) m]])
  then show ?thesis
    using h hs nth_range_all [of ?hs "\<lambda>v. test_bit bs (unat v)"] len
    by (simp add: bloom_filter_check_string_def)
qed

section \<open>Insertion and query with no contract assumed\<close>

lemma set_bit_c_Inr:
  assumes "set_bit_c (Some bs) v = Inr A'"
  shows "\<exists>bs'. A' = Some bs' \<and> length bs' = length bs \<and> (\<forall>n. test_bit bs n \<longrightarrow> test_bit bs' n)"
proof -
  from assms have "unat (v div 8) < length bs"
    by (auto simp: set_bit_c_def Let_def split: if_splits)
  then have "unat v < 8 * length bs" by (simp add: unat_div8)
  from set_bit_c_Some [OF this] assms show ?thesis by auto
qed

lemma add_loop_Inr:
  assumes "add_loop hashes k i (Some bs) = Inr A'"
  shows "\<exists>bs'. A' = Some bs' \<and> length bs' = length bs \<and> (\<forall>n. test_bit bs n \<longrightarrow> test_bit bs' n)"
  using assms
proof (induction "k - i" arbitrary: i bs)
  case 0
  then have "\<not> i < k" by simp
  with 0(2) show ?case by (subst (asm) add_loop.simps) auto
next
  case (Suc d)
  then have ik: "i < k" by simp
  from Suc.prems ik obtain A1 where
    s1: "set_bit_c (Some bs) (hashes ! i) = Inr A1"
    and r: "add_loop hashes k (i + 1) A1 = Inr A'"
    by (subst (asm) add_loop.simps) (auto split: if_splits sum.splits)
  from set_bit_c_Inr [OF s1] obtain bs1 where A1: "A1 = Some bs1" and l1: "length bs1 = length bs"
    and t1: "\<forall>n. test_bit bs n \<longrightarrow> test_bit bs1 n" by blast
  have d: "d = k - (i + 1)" using Suc.hyps(2) by simp
  from Suc.hyps(1) [OF d r [unfolded A1]] obtain bs' where
    "A' = Some bs'" "length bs' = length bs1" "\<forall>n. test_bit bs1 n \<longrightarrow> test_bit bs' n" by blast
  with l1 t1 show ?case by auto
qed

lemma add_loop_None:
  assumes "add_loop hashes k i None = Inr A'"
  shows "A' = None"
  using assms by (subst (asm) add_loop.simps) (auto simp: set_bit_c_def split: if_splits)

lemma add_string_Inr:
  assumes "bloom_filter_add_string bf x = Inr (r, bf')"
  shows "r = BLOOM_SUCCESS"
    and "\<exists>A'. bf' = bf\<lparr>bloom := A', elements_added := elements_added bf + 1\<rparr>"
    and "bloom bf = Some bs \<Longrightarrow>
           \<exists>bs'. bloom bf' = Some bs' \<and> length bs' = length bs \<and> (\<forall>n. test_bit bs n \<longrightarrow> test_bit bs' n)"
proof -
  from assms obtain h hs A' where h: "hash_function bf = Some h"
    and a: "add_loop hs (unat (number_hashes bf)) 0 (bloom bf) = Inr A'"
    and r: "r = BLOOM_SUCCESS"
    and bf': "bf' = bf\<lparr>bloom := A', elements_added := elements_added bf + 1\<rparr>"
    by (auto simp: bloom_filter_add_string_def split: option.splits sum.splits)
  show "r = BLOOM_SUCCESS" by (rule r)
  show "\<exists>A'. bf' = bf\<lparr>bloom := A', elements_added := elements_added bf + 1\<rparr>"
    using bf' by blast
  assume bs: "bloom bf = Some bs"
  from add_loop_Inr [OF a [unfolded bs]] bf'
  show "\<exists>bs'. bloom bf' = Some bs' \<and> length bs' = length bs \<and> (\<forall>n. test_bit bs n \<longrightarrow> test_bit bs' n)"
    by auto
qed

lemma check_bit_c_Inr:
  assumes "check_bit_c (Some bs) v = Inr t"
  shows "unat v < 8 * length bs" and "(t = 0) = (\<not> test_bit bs (unat v))"
proof -
  from assms have "unat (v div 8) < length bs"
    by (auto simp: check_bit_c_def Let_def split: if_splits)
  then show b: "unat v < 8 * length bs" by (simp add: unat_div8)
  from check_bit_c_Some [OF b] assms show "(t = 0) = (\<not> test_bit bs (unat v))" by auto
qed

lemma check_loop_frame:
  assumes "check_loop hashes k i bf r = Inr (r', bf')"
  shows "bf' = bf"
  using assms
proof (induction "k - i" arbitrary: i)
  case 0
  then have "\<not> i < k" by simp
  with 0(2) show ?case by (subst (asm) check_loop.simps) auto
next
  case (Suc d)
  then have ik: "i < k" by simp
  have d: "d = k - (i + 1)" using Suc.hyps(2) by simp
  from Suc.prems ik have "bf' = bf \<or> check_loop hashes k (i + 1) bf r = Inr (r', bf')"
    by (subst (asm) check_loop.simps) (auto split: if_splits sum.splits)
  then show ?case using Suc.hyps(1) [OF d] by blast
qed

lemma check_loop_mono:
  assumes "check_loop hashes k i bf BLOOM_SUCCESS = Inr (BLOOM_SUCCESS, bf0)"
    and "bloom bf = Some bs" "bloom bf' = Some bs'" "length bs' = length bs"
    and "\<forall>n. test_bit bs n \<longrightarrow> test_bit bs' n"
  shows "check_loop hashes k i bf' BLOOM_SUCCESS = Inr (BLOOM_SUCCESS, bf')"
  using assms(1)
proof (induction "k - i" arbitrary: i)
  case 0
  then have "\<not> i < k" by simp
  then show ?case by (subst check_loop.simps) auto
next
  case (Suc d)
  then have ik: "i < k" by simp
  have d: "d = k - (i + 1)" using Suc.hyps(2) by simp
  from Suc.prems ik assms(2) obtain t where il: "i < length hashes"
    and c: "check_bit_c (Some bs) (hashes ! i) = Inr t" and t: "t \<noteq> 0"
    and ni: "i \<noteq> 2147483647"
    and r: "check_loop hashes k (i + 1) bf BLOOM_SUCCESS = Inr (BLOOM_SUCCESS, bf0)"
    by (subst (asm) check_loop.simps) (auto split: if_splits sum.splits)
  from check_bit_c_Inr [OF c] t have b: "unat (hashes ! i) < 8 * length bs"
    and tb: "test_bit bs (unat (hashes ! i))" by auto
  from b assms(4) have "unat (hashes ! i) < 8 * length bs'" by simp
  from check_bit_c_Some [OF this] obtain t' where
    c': "check_bit_c (Some bs') (hashes ! i) = Inr t'"
    and t': "(t' = 0) = (\<not> test_bit bs' (unat (hashes ! i)))" by blast
  from tb assms(5) t' have "t' \<noteq> 0" by auto
  then have "check_loop hashes k i bf' BLOOM_SUCCESS = check_loop hashes k (i + 1) bf' BLOOM_SUCCESS"
    using ik il ni c' assms(3) by (subst check_loop.simps) simp
  then show ?case using Suc.hyps(1) [OF d r] by simp
qed

section \<open>Sequences of insertions\<close>

lemma hashes_ok_update [simp]:
  "hashes_ok (bf\<lparr>bloom := A, elements_added := e\<rparr>) y = hashes_ok bf y"
  by (simp add: hashes_ok_def split: option.splits)

lemma hash_indices_update [simp]:
  "hash_indices (bf\<lparr>bloom := A, elements_added := e\<rparr>) y = hash_indices bf y"
  by (simp add: hash_indices_def split: option.splits)

lemma add_strings_ok:
  assumes "filter_ok bf" "\<forall>y\<in>set xs. hashes_ok bf y" "bloom bf = Some bs"
  shows "\<exists>bf' bs'. add_strings bf xs = Inr bf' \<and> filter_ok bf' \<and> bloom bf' = Some bs'
           \<and> (\<forall>y. hashes_ok bf' y = hashes_ok bf y)
           \<and> (\<forall>y. hash_indices bf' y = hash_indices bf y)
           \<and> (\<forall>n. test_bit bs' n =
                  (test_bit bs n \<or> (\<exists>y\<in>set xs. n \<in> unat ` set (hash_indices bf y))))"
  using assms
proof (induction xs arbitrary: bf bs)
  case Nil
  then show ?case by simp
next
  case (Cons x xs)
  from Cons.prems have hx: "hashes_ok bf x" by simp
  from add_string_ok [OF Cons.prems(1) hx] Cons.prems(3) obtain bs1 where
    a: "bloom_filter_add_string bf x =
          Inr (BLOOM_SUCCESS, bf\<lparr>bloom := Some bs1, elements_added := elements_added bf + 1\<rparr>)"
    and l: "length bs1 = length bs"
    and t: "\<forall>n. test_bit bs1 n = (test_bit bs n \<or> n \<in> unat ` set (hash_indices bf x))"
    by auto
  let ?bf1 = "bf\<lparr>bloom := Some bs1, elements_added := elements_added bf + 1\<rparr>"
  have ok1: "filter_ok ?bf1"
    using Cons.prems(1) Cons.prems(3) l by (simp add: filter_ok_def)
  have h1: "\<forall>y\<in>set xs. hashes_ok ?bf1 y" using Cons.prems(2) by simp
  have b1: "bloom ?bf1 = Some bs1" by simp
  from Cons.IH [OF ok1 h1 b1] obtain bf' bs' where
    r: "add_strings ?bf1 xs = Inr bf'" and ok: "filter_ok bf'" and b: "bloom bf' = Some bs'"
    and hk: "\<forall>y. hashes_ok bf' y = hashes_ok ?bf1 y"
    and hi: "\<forall>y. hash_indices bf' y = hash_indices ?bf1 y"
    and t': "\<forall>n. test_bit bs' n =
                  (test_bit bs1 n \<or> (\<exists>y\<in>set xs. n \<in> unat ` set (hash_indices ?bf1 y)))"
    by blast
  have "add_strings bf (x # xs) = Inr bf'" using a r by simp
  moreover have "\<forall>n. test_bit bs' n =
                  (test_bit bs n \<or> (\<exists>y\<in>set (x # xs). n \<in> unat ` set (hash_indices bf y)))"
    using t t' by auto
  ultimately show ?case using ok b hk hi by auto
qed

lemma add_strings_Inr:
  assumes "add_strings bf xs = Inr bf'"
  shows "hash_function bf' = hash_function bf \<and> number_hashes bf' = number_hashes bf
           \<and> number_bits bf' = number_bits bf
           \<and> (\<forall>bs. bloom bf = Some bs \<longrightarrow>
                 (\<exists>bs'. bloom bf' = Some bs' \<and> length bs' = length bs
                    \<and> (\<forall>n. test_bit bs n \<longrightarrow> test_bit bs' n)))"
  using assms
proof (induction xs arbitrary: bf)
  case Nil
  then show ?case by simp
next
  case (Cons x xs)
  from Cons.prems obtain r bf1 where a: "bloom_filter_add_string bf x = Inr (r, bf1)"
    and s: "add_strings bf1 xs = Inr bf'"
    by (auto split: sum.splits)
  from add_string_Inr(2) [OF a] have c: "hash_function bf1 = hash_function bf"
    "number_hashes bf1 = number_hashes bf" "number_bits bf1 = number_bits bf" by auto
  note ih = Cons.IH [OF s]
  show ?case
  proof (intro conjI allI impI)
    show "hash_function bf' = hash_function bf" using ih c by simp
    show "number_hashes bf' = number_hashes bf" using ih c by simp
    show "number_bits bf' = number_bits bf" using ih c by simp
  next
    fix bs assume bs: "bloom bf = Some bs"
    from add_string_Inr(3) [OF a bs] obtain bs1 where b1: "bloom bf1 = Some bs1"
      and l1: "length bs1 = length bs" and t1: "\<forall>n. test_bit bs n \<longrightarrow> test_bit bs1 n" by blast
    from ih b1 obtain bs' where "bloom bf' = Some bs'" "length bs' = length bs1"
      "\<forall>n. test_bit bs1 n \<longrightarrow> test_bit bs' n" by blast
    with l1 t1 show "\<exists>bs'. bloom bf' = Some bs' \<and> length bs' = length bs
                    \<and> (\<forall>n. test_bit bs n \<longrightarrow> test_bit bs' n)" by auto
  qed
qed

lemma check_string_frame:
  assumes "bloom_filter_check_string bf x = Inr (r, bf')"
  shows "bf' = bf"
  using assms check_loop_frame
  by (auto simp: bloom_filter_check_string_def split: option.splits sum.splits)

lemma contains_True:
  "(contains bf y = Some True) = (bloom_filter_check_string bf y = Inr (BLOOM_SUCCESS, bf))"
proof (cases "bloom_filter_check_string bf y")
  case (Inl f)
  then show ?thesis by (simp add: contains_def)
next
  case (Inr p)
  obtain r bf' where p: "p = (r, bf')" by (cases p)
  with Inr check_string_frame have "bf' = bf" by blast
  with Inr p show ?thesis by (simp add: contains_def)
qed

lemma contains_mono:
  assumes "contains bf y = Some True"
    and "hash_function bf' = hash_function bf" "number_hashes bf' = number_hashes bf"
    and "number_bits bf' = number_bits bf"
    and "bloom bf = Some bs" "bloom bf' = Some bs'" "length bs' = length bs"
    and "\<forall>n. test_bit bs n \<longrightarrow> test_bit bs' n"
  shows "contains bf' y = Some True"
proof -
  from assms(1) have c: "bloom_filter_check_string bf y = Inr (BLOOM_SUCCESS, bf)"
    by (simp add: contains_True)
  then obtain h hs where h: "hash_function bf = Some h"
    and hs: "h (sint (number_hashes bf)) (number_bits bf) y = Inr hs"
    and l: "check_loop hs (unat (number_hashes bf)) 0 bf BLOOM_SUCCESS = Inr (BLOOM_SUCCESS, bf)"
    by (auto simp: bloom_filter_check_string_def split: option.splits sum.splits)
  from check_loop_mono [OF l assms(5) assms(6) assms(7) assms(8)]
  have "bloom_filter_check_string bf' y = Inr (BLOOM_SUCCESS, bf')"
    using h hs assms(2,3,4) by (simp add: bloom_filter_check_string_def)
  then show ?thesis by (simp add: contains_True)
qed

lemma set_positions_eq: "set_positions bs = {n. test_bit bs n}"
  by (auto simp: set_positions_def test_bit_def)

lemma count_set_bits_card: "count_set_bits bs = card (set_positions bs)"
  unfolding count_set_bits_def set_positions_def
  by (rule distinct_card [symmetric]) simp

lemma positions_mono:
  assumes "\<forall>n. test_bit bs n \<longrightarrow> test_bit bs' n"
  shows "set_positions bs \<subseteq> set_positions bs'" and "count_set_bits bs \<le> count_set_bits bs'"
proof -
  show s: "set_positions bs \<subseteq> set_positions bs'" using assms by (auto simp: set_positions_eq)
  have "finite (set_positions bs')" by (simp add: set_positions_def)
  from card_mono [OF this s] show "count_set_bits bs \<le> count_set_bits bs'"
    by (simp add: count_set_bits_card)
qed

section \<open>Concrete runs on the small filter\<close>

lemmas sample_defs = sample_filter_def sample_hash_def filter_ok_def hashes_ok_def hash_contract_def

section \<open>No false negatives\<close>

text \<open>
  Claim C1. For a filter whose bit array is allocated with \<open>bloom_length\<close> bytes holding
  \<open>number_bits\<close> bits, and a hash strategy that keeps its contract on the items
  inserted, any sequence of calls of \<open>bloom_filter_add_string\<close> that contains an insertion
  of \<open>x\<close>, with any insertions before and after it, runs without fault, and
  \<open>bloom_filter_check_string\<close> on \<open>x\<close> then returns \<open>BLOOM_SUCCESS\<close>.
\<close>

theorem no_false_negatives:
  assumes "filter_ok bf" and "\<forall>y\<in>set (before @ x # after). hashes_ok bf y"
  shows "\<exists>bf'. add_strings bf (before @ x # after) = Inr bf'
           \<and> bloom_filter_check_string bf' x = Inr (BLOOM_SUCCESS, bf')"
proof -
  from filter_okD [OF assms(1)] obtain bs where bs: "bloom bf = Some bs" by blast
  from add_strings_ok [OF assms(1) assms(2) bs] obtain bf' bs' where
    a: "add_strings bf (before @ x # after) = Inr bf'" and ok: "filter_ok bf'"
    and b: "bloom bf' = Some bs'"
    and hk: "\<forall>y. hashes_ok bf' y = hashes_ok bf y"
    and hi: "\<forall>y. hash_indices bf' y = hash_indices bf y"
    and t: "\<forall>n. test_bit bs' n =
              (test_bit bs n \<or> (\<exists>y\<in>set (before @ x # after). n \<in> unat ` set (hash_indices bf y)))"
    by blast
  have hx: "hashes_ok bf' x" using hk assms(2) by simp
  have "\<forall>v\<in>set (hash_indices bf' x). test_bit bs' (unat v)"
    using t hi by auto
  then have "bloom_filter_check_string bf' x = Inr (BLOOM_SUCCESS, bf')"
    using check_string_ok [OF ok hx b] by simp
  with a show ?thesis by blast
qed

theorem no_false_negatives_witness:
  "filter_ok sample_filter
   \<and> hashes_ok sample_filter ''beta'' \<and> hashes_ok sample_filter ''alpha''
   \<and> hashes_ok sample_filter ''gamma''
   \<and> (\<exists>bf'. add_strings sample_filter ([''beta''] @ ''alpha'' # [''gamma'']) = Inr bf'
           \<and> bloom_filter_check_string bf' ''alpha'' = Inr (BLOOM_SUCCESS, bf'))"
proof -
  have 1: "filter_ok sample_filter" by (simp add: sample_defs)
  have 2: "\<forall>y\<in>set ([''beta''] @ ''alpha'' # [''gamma'']). hashes_ok sample_filter y"
    by (simp add: sample_defs)
  from no_false_negatives [OF 1 2] 1 2 show ?thesis by simp
qed

section \<open>Bits are only ever set\<close>

text \<open>
  Claim C5. After any sequence of insertions that returns, every bit that was set is
  still set: the set of 1-bits of the bit store is a superset of the one before, the number
  of set bits has not decreased, and every item for which the query answered
  \<open>BLOOM_SUCCESS\<close> before is still answered \<open>BLOOM_SUCCESS\<close>.
\<close>

theorem insert_monotone:
  assumes "add_strings bf xs = Inr bf'" and "bloom bf = Some bs"
  shows "\<exists>bs'. bloom bf' = Some bs' \<and> length bs' = length bs
           \<and> set_positions bs \<subseteq> set_positions bs'
           \<and> count_set_bits bs \<le> count_set_bits bs'
           \<and> (\<forall>y. contains bf y = Some True \<longrightarrow> contains bf' y = Some True)"
proof -
  from add_strings_Inr [OF assms(1)] assms(2) obtain bs' where
    c: "hash_function bf' = hash_function bf" "number_hashes bf' = number_hashes bf"
       "number_bits bf' = number_bits bf"
    and b: "bloom bf' = Some bs'" and l: "length bs' = length bs"
    and t: "\<forall>n. test_bit bs n \<longrightarrow> test_bit bs' n" by blast
  have "\<forall>y. contains bf y = Some True \<longrightarrow> contains bf' y = Some True"
    using contains_mono [OF _ c assms(2) b l t] by blast
  with b l positions_mono [OF t] show ?thesis by blast
qed

theorem insert_monotone_witness:
  "add_strings (sample_filter\<lparr>bloom := Some [1]\<rparr>) [''alpha''] =
     Inr (sample_filter\<lparr>bloom := Some [5], elements_added := 1\<rparr>)
   \<and> set_positions [1] \<subseteq> set_positions [5]
   \<and> count_set_bits [1] \<le> count_set_bits [5]
   \<and> contains (sample_filter\<lparr>bloom := Some [1]\<rparr>) ''abc'' = Some True
   \<and> contains (sample_filter\<lparr>bloom := Some [5], elements_added := 1\<rparr>) ''abc'' = Some True"
proof -
  have 1: "add_strings (sample_filter\<lparr>bloom := Some [1]\<rparr>) [''alpha''] =
     Inr (sample_filter\<lparr>bloom := Some [5], elements_added := 1\<rparr>)"
    by (simp add: sample_defs bloom_filter_add_string_def add_loop.simps set_bit_c_def)
  have 2: "bloom (sample_filter\<lparr>bloom := Some [1]\<rparr>) = Some [1]" by simp
  have 3: "contains (sample_filter\<lparr>bloom := Some [1]\<rparr>) ''abc'' = Some True"
    by (simp add: sample_defs contains_def bloom_filter_check_string_def check_loop.simps
        check_bit_c_def)
  from insert_monotone [OF 1 2] 1 3 show ?thesis by simp
qed

section \<open>The query leaves the filter as it was\<close>

text \<open>
  Claim C10. On a filter whose bit array is allocated and holds \<open>number_bits\<close> bits, with
  a hash strategy that keeps its contract on \<open>x\<close>, \<open>bloom_filter_check_string\<close> returns
  without fault and the filter it leaves is the filter it was given: every field, the bytes
  of the bit store and \<open>elements_added\<close> included.
\<close>

theorem check_string_unchanged:
  assumes "filter_ok bf" and "hashes_ok bf x"
  shows "\<exists>r. bloom_filter_check_string bf x = Inr (r, bf)"
proof -
  from filter_okD [OF assms(1)] obtain bs where bs: "bloom bf = Some bs" by blast
  from check_string_ok [OF assms bs] show ?thesis by blast
qed

theorem check_string_unchanged_witness:
  "filter_ok sample_filter \<and> hashes_ok sample_filter ''alpha''
   \<and> (\<exists>r. bloom_filter_check_string sample_filter ''alpha'' = Inr (r, sample_filter))"
proof -
  have 1: "filter_ok sample_filter" by (simp add: sample_defs)
  have 2: "hashes_ok sample_filter ''alpha''" by (simp add: sample_defs)
  from check_string_unchanged [OF 1 2] 1 2 show ?thesis by blast
qed

section \<open>The default hash adapter\<close>

lemma md5_loop_result:
  assumes "0 \<le> i" "i \<le> N" "m \<noteq> 0" "length results = nat N"
    and "\<forall>bs. length (md5 bs) = MD5_DIGEST_LENGTH"
    and "0 < i \<longrightarrow> digest = chained_digest md5 str (nat i - 1)"
  shows "\<exists>rs. md5_loop md5 N m str i digest results = Inr rs \<and> length rs = nat N
           \<and> (\<forall>j<nat i. rs ! j = results ! j)
           \<and> (\<forall>j. nat i \<le> j \<and> j < nat N \<longrightarrow>
                  rs ! j = from_le64 (take 8 (chained_digest md5 str j)) mod m)"
  using assms
proof (induction "nat (N - i)" arbitrary: i digest results)
  case 0
  then have "\<not> i < N" by simp
  moreover from 0 have "nat i = nat N" by simp
  ultimately show ?case using 0 by (subst md5_loop.simps) auto
next
  case (Suc d)
  then have iN: "i < N" by linarith
  let ?input = "if i = 0 then c_string_bytes str else take MD5_DIGEST_LENGTH digest"
  let ?d = "md5 ?input"
  let ?v = "from_le64 (take 8 ?d) mod m"
  have dg: "?d = chained_digest md5 str (nat i)"
  proof (cases "i = 0")
    case True
    then show ?thesis by simp
  next
    case False
    with Suc.prems(1) have pos: "0 < i" by simp
    with Suc.prems(6) have dd: "digest = chained_digest md5 str (nat i - 1)" by simp
    have "length digest = MD5_DIGEST_LENGTH"
      by (cases "nat i - 1") (simp_all add: dd Suc.prems(5))
    then have "take MD5_DIGEST_LENGTH digest = digest" by simp
    moreover from pos have "nat i = Suc (nat i - 1)" by simp
    then have "chained_digest md5 str (nat i) = md5 (chained_digest md5 str (nat i - 1))"
      by (metis chained_digest.simps(2))
    ultimately show ?thesis using False dd by simp
  qed
  have d: "d = nat (N - (i + 1))" using Suc.hyps(2) by linarith
  have p1: "0 \<le> i + 1" using Suc.prems(1) by simp
  have p2: "i + 1 \<le> N" using iN by simp
  have p4: "length (results[nat i := ?v]) = nat N" using Suc.prems(4) by simp
  have p6: "0 < i + 1 \<longrightarrow> ?d = chained_digest md5 str (nat (i + 1) - 1)"
    using dg Suc.prems(1) by (simp add: nat_add_distrib)
  from Suc.hyps(1) [OF d p1 p2 Suc.prems(3) p4 Suc.prems(5) p6] obtain rs where
    r: "md5_loop md5 N m str (i + 1) ?d (results[nat i := ?v]) = Inr rs"
    and l: "length rs = nat N"
    and lo: "\<forall>j<nat (i + 1). rs ! j = (results[nat i := ?v]) ! j"
    and hi: "\<forall>j. nat (i + 1) \<le> j \<and> j < nat N \<longrightarrow>
                  rs ! j = from_le64 (take 8 (chained_digest md5 str j)) mod m"
    by blast
  have step: "md5_loop md5 N m str i digest results = Inr rs"
    using iN Suc.prems(3) r by (subst md5_loop.simps) (simp add: Let_def)
  have ni: "nat (i + 1) = Suc (nat i)" using Suc.prems(1) by (simp add: nat_add_distrib)
  have il: "nat i < length results" using iN Suc.prems(1,4) by simp
  have a: "\<forall>j<nat i. rs ! j = results ! j"
    using lo ni by auto
  have "rs ! nat i = ?v" using lo ni il by simp
  then have b: "\<forall>j. nat i \<le> j \<and> j < nat N \<longrightarrow>
                  rs ! j = from_le64 (take 8 (chained_digest md5 str j)) mod m"
    using hi ni dg by (metis Suc_leI le_neq_implies_less)
  from step l a b show ?case by blast
qed

lemma md5_hash_default_result:
  assumes "0 \<le> count" "modulus \<noteq> 0" "\<forall>bs. length (md5 bs) = MD5_DIGEST_LENGTH"
  shows "\<exists>rs. md5_hash_default md5 count modulus item = Inr rs \<and> int (length rs) = count
           \<and> (\<forall>i<length rs. rs ! i < modulus
                  \<and> rs ! i = from_le64 (take 8 (chained_digest md5 item i)) mod modulus)"
proof -
  have z: "(0::int) \<le> 0" by simp
  have l: "length (replicate (nat count) (0 :: 64 word)) = nat count" by simp
  have v: "0 < (0::int) \<longrightarrow> [] = chained_digest md5 item (nat 0 - 1)" by simp
  from md5_loop_result [OF z assms(1) assms(2) l assms(3) v] obtain rs where
    r: "md5_loop md5 count modulus item 0 [] (replicate (nat count) 0) = Inr rs"
    and len: "length rs = nat count"
    and f: "\<forall>j. nat 0 \<le> j \<and> j < nat count \<longrightarrow>
                  rs ! j = from_le64 (take 8 (chained_digest md5 item j)) mod modulus"
    by blast
  have lt: "x mod modulus < modulus" for x :: "64 word"
    using assms(2) by (simp add: word_mod_less_divisor word_neq_0_conv)
  have g: "\<forall>i<length rs. rs ! i < modulus
                  \<and> rs ! i = from_le64 (take 8 (chained_digest md5 item i)) mod modulus"
    using f len by (simp add: lt)
  have il: "int (length rs) = count" using len assms(1) by simp
  show ?thesis unfolding md5_hash_default_def using r il g by blast
qed

lemma md5_hash_default_contract:
  assumes "0 \<le> count" "modulus \<noteq> 0" "\<forall>bs. length (md5 bs) = MD5_DIGEST_LENGTH"
  shows "hash_contract (md5_hash_default md5) count modulus item"
proof -
  from md5_hash_default_result [OF assms] obtain rs where
    r: "md5_hash_default md5 count modulus item = Inr rs" and l: "int (length rs) = count"
    and f: "\<forall>i<length rs. rs ! i < modulus" by blast
  from f have "list_all (\<lambda>v. v < modulus) rs" by (simp add: list_all_length)
  with r l show ?thesis by (simp add: hash_contract_def)
qed

lemma sample_md5_length: "\<forall>bs. length (sample_md5 bs) = MD5_DIGEST_LENGTH"
  by (simp add: sample_md5_def MD5_DIGEST_LENGTH_def)

lemma sample_md5_run: "md5_hash_default sample_md5 2 3 ''alpha'' = Inr [1, 2]"
  by code_simp

text \<open>
  Claim C8. For a count that is not negative, a modulus that is not 0 and a digest of
  \<open>MD5_DIGEST_LENGTH\<close> bytes, \<open>md5_hash_default\<close> returns exactly \<open>count\<close> indices,
  each below the modulus: index \<open>i\<close> is the first 8 bytes of the \<open>i\<close>-th chained digest
  read as an unsigned integer, modulo the modulus, where the first digest is of the item's
  bytes and each later one of the previous digest.
\<close>

theorem default_hash_adapter:
  assumes "0 \<le> count" and "modulus \<noteq> 0" and "\<forall>bs. length (md5 bs) = MD5_DIGEST_LENGTH"
  shows "\<exists>rs. md5_hash_default md5 count modulus item = Inr rs \<and> int (length rs) = count
           \<and> (\<forall>i<length rs. rs ! i < modulus
                  \<and> rs ! i = from_le64 (take 8 (chained_digest md5 item i)) mod modulus)"
  by (rule md5_hash_default_result [OF assms])

theorem default_hash_adapter_witness:
  "md5_hash_default sample_md5 2 3 ''alpha'' = Inr [1, 2]
   \<and> from_le64 (take 8 (chained_digest sample_md5 ''alpha'' 0)) mod 3 = 1
   \<and> from_le64 (take 8 (chained_digest sample_md5 ''alpha'' 1)) mod 3 = 2"
proof -
  have 1: "(0::int) \<le> 2" by simp
  have 2: "(3 :: 64 word) \<noteq> 0" by simp
  from default_hash_adapter [OF 1 2 sample_md5_length, of "''alpha''"] obtain rs where
    r: "md5_hash_default sample_md5 2 3 ''alpha'' = Inr rs"
    and f: "\<forall>i<length rs. rs ! i = from_le64 (take 8 (chained_digest sample_md5 ''alpha'' i)) mod 3"
    by blast
  from r sample_md5_run have rs: "rs = [1, 2]" by simp
  from f [rule_format, of 0] rs
  have a: "from_le64 (take 8 (chained_digest sample_md5 ''alpha'' 0)) mod 3 = 1"
    by simp
  from f [rule_format, of 1] rs
  have b: "from_le64 (take 8 (chained_digest sample_md5 ''alpha'' 1)) mod 3 = 2"
    by simp
  from a b sample_md5_run show ?thesis by blast
qed

section \<open>Export and import\<close>

lemma from_le_to_le: "(from_le (to_le n w) :: 'a::len word) = take_bit (8 * n) (w :: 'a word)"
proof (induction n arbitrary: w)
  case 0 then show ?case by simp
next
  case (Suc n)
  show ?case
    apply (simp add: Suc)
    apply (rule bit_word_eqI)
    apply (auto simp: bit_simps dest: bit_imp_le_length)
    done
qed

lemma to_le32_eq: "to_le32 w = to_le (Suc (Suc (Suc (Suc 0)))) w"
  by (simp add: to_le32_def drop_bit_drop_bit)

lemma to_le64_eq: "to_le64 w = to_le (Suc (Suc (Suc (Suc (Suc (Suc (Suc (Suc 0)))))))) w"
  by (simp add: to_le64_def drop_bit_drop_bit)

lemma from_to_le32: "from_le32 (to_le32 w) = w"
  unfolding from_le32_def to_le32_eq from_le_to_le by (simp add: take_bit_word_eq_self)

lemma from_to_le64: "from_le64 (to_le64 w) = w"
  unfolding from_le64_def to_le64_eq from_le_to_le by (simp add: take_bit_word_eq_self)

lemma length_to_le64: "length (to_le64 w) = 8"
  by (simp add: to_le64_def)

lemma length_to_le32: "length (to_le32 w) = 4"
  by (simp add: to_le32_def)

lemma fread_obj_full:
  assumes "length obj = length a"
  shows "fread_obj obj (a @ rest) = (a, rest)"
  using assms by (simp add: fread_obj_def)

lemma export_closed:
  assumes "\<not> writable fs filepath"
  shows "bloom_filter_export fs bf filepath = Inr (BLOOM_FAILURE, fs)"
  using assms by (simp add: bloom_filter_export_def fopen_wb_def)

lemma export_open:
  assumes "writable fs filepath" "bloom bf = Some bs" "int (length bs) = bloom_length bf"
  shows "bloom_filter_export fs bf filepath =
           Inr (BLOOM_SUCCESS,
                fs\<lparr>files := (files fs)(filepath := Some (to_le64 (estimated_elements bf)
                   @ to_le64 (elements_added bf) @ to_le32 (false_positive_probability bf) @ bs))\<rparr>)"
proof -
  have "fwrite_bloom (Some bs) (bloom_length bf) = Inr bs"
    using assms(3) by (auto simp: fwrite_bloom_def)
  then show ?thesis
    using assms(1,2) by (simp add: bloom_filter_export_def fopen_wb_def)
qed

lemma sized_fields:
  assumes "calculate_optimal_hashes fp bf = bf"
  shows "number_bits bf = bits_expr fp (sint (estimated_elements bf)) (false_positive_probability bf)"
    and "number_hashes bf = hashes_expr fp (number_bits bf) (sint (estimated_elements bf))"
    and "bloom_length bf = length_expr fp (number_bits bf)"
proof -
  have m: "number_bits (calculate_optimal_hashes fp bf) =
        bits_expr fp (sint (estimated_elements bf)) (false_positive_probability bf)"
    by (simp add: calculate_optimal_hashes_def Let_def)
  then show m': "number_bits bf = bits_expr fp (sint (estimated_elements bf)) (false_positive_probability bf)"
    using assms by simp
  have "number_hashes (calculate_optimal_hashes fp bf) =
        hashes_expr fp (bits_expr fp (sint (estimated_elements bf)) (false_positive_probability bf))
          (sint (estimated_elements bf))"
    by (simp add: calculate_optimal_hashes_def Let_def)
  then show "number_hashes bf = hashes_expr fp (number_bits bf) (sint (estimated_elements bf))"
    using assms m' by simp
  have "bloom_length (calculate_optimal_hashes fp bf) =
        length_expr fp (bits_expr fp (sint (estimated_elements bf)) (false_positive_probability bf))"
    by (simp add: calculate_optimal_hashes_def Let_def)
  then show "bloom_length bf = length_expr fp (number_bits bf)"
    using assms m' by simp
qed

lemma bound_strategy:
  assumes "bloom_filter_set_hash_function md5 bf hf = bf"
  shows "hash_function bf = Some (case hf of None \<Rightarrow> md5_hash_default md5 | Some h \<Rightarrow> h)"
proof -
  have "hash_function (bloom_filter_set_hash_function md5 bf hf) =
          Some (case hf of None \<Rightarrow> md5_hash_default md5 | Some h \<Rightarrow> h)"
    by (simp add: bloom_filter_set_hash_function_def split: option.splits)
  then show ?thesis using assms by simp
qed

lemma import_of_export:
  assumes "bloom bf = Some bs" "int (length bs) = bloom_length bf"
    and "calculate_optimal_hashes fp bf = bf"
    and "bloom_filter_set_hash_function md5 bf hf = bf"
    and "files fs filepath = Some (to_le64 (estimated_elements bf)
           @ to_le64 (elements_added bf) @ to_le32 (false_positive_probability bf) @ bs)"
    and "updatable fs filepath"
  shows "bloom_filter_import fp md5 fs bf0 filepath hf = Inr (BLOOM_SUCCESS, bf)"
proof -
  let ?n = "estimated_elements bf" and ?e = "elements_added bf"
  let ?p = "false_positive_probability bf"
  have o: "fopen_rpb fs filepath = Some (to_le64 ?n @ to_le64 ?e @ to_le32 ?p @ bs)"
    using assms(5,6) by (simp add: fopen_rpb_def)
  have r1: "fread_obj (to_le64 (estimated_elements bf0)) (to_le64 ?n @ to_le64 ?e @ to_le32 ?p @ bs)
            = (to_le64 ?n, to_le64 ?e @ to_le32 ?p @ bs)"
    by (rule fread_obj_full) (simp add: length_to_le64)
  have r2: "fread_obj (to_le64 e0) (to_le64 ?e @ to_le32 ?p @ bs) = (to_le64 ?e, to_le32 ?p @ bs)" for e0
    by (rule fread_obj_full) (simp add: length_to_le64)
  have r3: "fread_obj (to_le32 p0) (to_le32 ?p @ bs) = (to_le32 ?p, bs)" for p0
    by (rule fread_obj_full) (simp add: length_to_le32)
  let ?bf3 = "bf0\<lparr>estimated_elements := ?n, elements_added := ?e, false_positive_probability := ?p\<rparr>"
  let ?bf4 = "calculate_optimal_hashes fp ?bf3"
  have k: "number_hashes ?bf4 = number_hashes bf" and m: "number_bits ?bf4 = number_bits bf"
    and l: "bloom_length ?bf4 = bloom_length bf"
    using sized_fields [OF assms(3)] by (simp_all add: calculate_optimal_hashes_def Let_def)
  have c: "c_calloc (bloom_length ?bf4) = Some (replicate (length bs) 0)"
    using l assms(2) by (simp add: c_calloc_def)
  have r4: "fread_obj (replicate (length bs) 0) bs = (bs, [])"
    using fread_obj_full [of "replicate (length bs) 0" bs "[]"] by simp
  have res: "bloom_filter_import fp md5 fs bf0 filepath hf =
          Inr (BLOOM_SUCCESS, bloom_filter_set_hash_function md5 (?bf4\<lparr>bloom := Some bs\<rparr>) hf)"
    using o r1 r2 r3 c r4
    by (simp add: bloom_filter_import_def from_to_le64 from_to_le32 del: fread_obj_def)
  have "bloom_filter_set_hash_function md5 (?bf4\<lparr>bloom := Some bs\<rparr>) hf = bf"
  proof (rule BloomFilter.equality)
    show "hash_function (bloom_filter_set_hash_function md5 (?bf4\<lparr>bloom := Some bs\<rparr>) hf) = hash_function bf"
      using bound_strategy [OF assms(4)]
      by (simp add: bloom_filter_set_hash_function_def split: option.splits)
  qed (insert k m l assms(1), simp_all add: bloom_filter_set_hash_function_def
         calculate_optimal_hashes_def Let_def split: option.splits)
  with res show ?thesis by simp
qed

text \<open>
  Construction and insertion leave a filter in the state the round trip asks for: the
  derived fields are what the sizing gives for the two inputs, and the strategy bound is
  the one the caller passed.
\<close>

lemma calculate_idem:
  "calculate_optimal_hashes fp (calculate_optimal_hashes fp bf) = calculate_optimal_hashes fp bf"
  by (simp add: calculate_optimal_hashes_def Let_def)

lemma init_exportable:
  assumes "bloom_filter_init fp md5 bf n p hf = (BLOOM_SUCCESS, bf')"
  shows "calculate_optimal_hashes fp bf' = bf'"
    and "bloom_filter_set_hash_function md5 bf' hf = bf'"
    and "bloom bf' = c_calloc (bloom_length bf')"
    and "elements_added bf' = 0"
  using assms
  by (auto simp: bloom_filter_init_def calculate_optimal_hashes_def
      bloom_filter_set_hash_function_def Let_def split: if_splits option.splits)

lemma add_string_exportable:
  assumes "bloom_filter_add_string bf x = Inr (r, bf')"
    and "calculate_optimal_hashes fp bf = bf"
    and "bloom_filter_set_hash_function md5 bf hf = bf"
  shows "calculate_optimal_hashes fp bf' = bf'"
    and "bloom_filter_set_hash_function md5 bf' hf = bf'"
    and "bloom_length bf' = bloom_length bf"
proof -
  from add_string_Inr(2) [OF assms(1)] obtain A' where
    bf': "bf' = bf\<lparr>bloom := A', elements_added := elements_added bf + 1\<rparr>" by blast
  have "calculate_optimal_hashes fp bf' =
          (calculate_optimal_hashes fp bf)\<lparr>bloom := A', elements_added := elements_added bf + 1\<rparr>"
    by (simp add: bf' calculate_optimal_hashes_def Let_def)
  then show "calculate_optimal_hashes fp bf' = bf'" using assms(2) bf' by simp
  have "bloom_filter_set_hash_function md5 bf' hf =
          (bloom_filter_set_hash_function md5 bf hf)\<lparr>bloom := A', elements_added := elements_added bf + 1\<rparr>"
    by (simp add: bf' bloom_filter_set_hash_function_def split: option.splits)
  then show "bloom_filter_set_hash_function md5 bf' hf = bf'" using assms(3) bf' by simp
  show "bloom_length bf' = bloom_length bf" by (simp add: bf')
qed

text \<open>
  Claim C7. For a filter with its bit array allocated at \<open>bloom_length\<close> bytes, export
  returns \<open>BLOOM_FAILURE\<close> and leaves the file system as it was when the path cannot be
  opened for writing; otherwise it returns \<open>BLOOM_SUCCESS\<close> and the file holds, in this
  order, the 8 bytes of \<open>estimated_elements\<close>, the 8 bytes of \<open>elements_added\<close>, the 4
  bytes of \<open>false_positive_probability\<close> and the \<open>bloom_length\<close> bytes of the bit array:
  \<open>20 + bloom_length\<close> bytes in all. Each header field reads back as the value written.
\<close>

theorem export_layout:
  assumes "bloom bf = Some bs" and "int (length bs) = bloom_length bf"
  shows "(\<not> writable fs filepath \<longrightarrow> bloom_filter_export fs bf filepath = Inr (BLOOM_FAILURE, fs))
       \<and> (writable fs filepath \<longrightarrow>
            bloom_filter_export fs bf filepath =
              Inr (BLOOM_SUCCESS,
                   fs\<lparr>files := (files fs)(filepath := Some (to_le64 (estimated_elements bf)
                      @ to_le64 (elements_added bf) @ to_le32 (false_positive_probability bf) @ bs))\<rparr>))
       \<and> length (to_le64 (estimated_elements bf)) = 8
       \<and> from_le64 (to_le64 (estimated_elements bf)) = estimated_elements bf
       \<and> length (to_le64 (elements_added bf)) = 8
       \<and> from_le64 (to_le64 (elements_added bf)) = elements_added bf
       \<and> length (to_le32 (false_positive_probability bf)) = 4
       \<and> from_le32 (to_le32 (false_positive_probability bf)) = false_positive_probability bf
       \<and> int (length bs) = bloom_length bf
       \<and> int (length (to_le64 (estimated_elements bf) @ to_le64 (elements_added bf)
                  @ to_le32 (false_positive_probability bf) @ bs)) = 20 + bloom_length bf"
  using assms export_closed [of fs filepath bf] export_open [of fs filepath bf bs]
  by (simp add: length_to_le64 length_to_le32 from_to_le64 from_to_le32)

theorem export_layout_witness:
  "bloom_filter_export sample_fs sample_filter ''filter.blm'' =
     Inr (BLOOM_SUCCESS,
          sample_fs\<lparr>files := (files sample_fs)(''filter.blm'' :=
            Some [2, 0, 0, 0, 0, 0, 0, 0,  0, 0, 0, 0, 0, 0, 0, 0,  0, 0, 0, 0x3F,  0])\<rparr>)
   \<and> bloom_filter_export sample_fs sample_filter ''elsewhere'' = Inr (BLOOM_FAILURE, sample_fs)"
proof -
  have 1: "bloom sample_filter = Some [0]" by (simp add: sample_filter_def)
  have 2: "int (length [0 :: byte]) = bloom_length sample_filter" by (simp add: sample_filter_def)
  have w: "writable sample_fs ''filter.blm''" "\<not> writable sample_fs ''elsewhere''"
    by (simp_all add: sample_fs_def)
  have b: "to_le64 (estimated_elements sample_filter) = [2, 0, 0, 0, 0, 0, 0, 0]"
    "to_le64 (elements_added sample_filter) = [0, 0, 0, 0, 0, 0, 0, 0]"
    "to_le32 (false_positive_probability sample_filter) = [0, 0, 0, 0x3F]"
    by (simp_all add: sample_filter_def to_le64_def to_le32_def)
  from export_layout [OF 1 2, of sample_fs "''filter.blm''"]
    export_layout [OF 1 2, of sample_fs "''elsewhere''"] w b
  show ?thesis by simp
qed

text \<open>
  Claim C2. A filter exported to a file and imported from it with the same hash strategy
  comes back with the same \<open>estimated_elements\<close>, \<open>elements_added\<close> and
  \<open>false_positive_probability\<close>, and answers every query as before: it is the same
  filter, field by field, whatever the structure imported into held.
\<close>

theorem export_import_roundtrip:
  assumes "bloom bf = Some bs" and "int (length bs) = bloom_length bf"
    and "calculate_optimal_hashes fp bf = bf"
    and "bloom_filter_set_hash_function md5 bf hf = bf"
    and "bloom_filter_export fs bf filepath = Inr (BLOOM_SUCCESS, fs')"
    and "updatable fs' filepath"
  shows "\<exists>bf'. bloom_filter_import fp md5 fs' bf0 filepath hf = Inr (BLOOM_SUCCESS, bf')
           \<and> estimated_elements bf' = estimated_elements bf
           \<and> elements_added bf' = elements_added bf
           \<and> false_positive_probability bf' = false_positive_probability bf
           \<and> (\<forall>x. contains bf' x = contains bf x)
           \<and> bf' = bf"
proof -
  have w: "writable fs filepath"
  proof (rule ccontr)
    assume "\<not> writable fs filepath"
    from export_closed [OF this, of bf] assms(5) show False by simp
  qed
  from export_open [OF w assms(1,2)] assms(5)
  have f: "files fs' filepath = Some (to_le64 (estimated_elements bf)
           @ to_le64 (elements_added bf) @ to_le32 (false_positive_probability bf) @ bs)"
    by auto
  from import_of_export [OF assms(1,2,3,4) f assms(6)] show ?thesis by simp
qed

theorem export_import_roundtrip_witness:
  "\<exists>fs'. bloom_filter_export sample_fs (sample_filter\<lparr>bloom := Some [4], elements_added := 1\<rparr>)
            ''filter.blm'' = Inr (BLOOM_SUCCESS, fs')
         \<and> bloom_filter_import sample_arith sample_md5 fs' sample_filter ''filter.blm''
              (Some sample_hash)
             = Inr (BLOOM_SUCCESS, sample_filter\<lparr>bloom := Some [4], elements_added := 1\<rparr>)"
proof -
  let ?bf = "sample_filter\<lparr>bloom := Some [4], elements_added := 1\<rparr>"
  have 1: "bloom ?bf = Some [4]" by simp
  have 2: "int (length [4 :: byte]) = bloom_length ?bf" by (simp add: sample_filter_def)
  have 3: "calculate_optimal_hashes sample_arith ?bf = ?bf"
    by (simp add: calculate_optimal_hashes_def sample_arith_def sample_filter_def)
  have 4: "bloom_filter_set_hash_function sample_md5 ?bf (Some sample_hash) = ?bf"
    by (simp add: bloom_filter_set_hash_function_def sample_filter_def)
  have w: "writable sample_fs ''filter.blm''" by (simp add: sample_fs_def)
  let ?fs' = "sample_fs\<lparr>files := (files sample_fs)(''filter.blm'' :=
       Some (to_le64 (estimated_elements ?bf) @ to_le64 (elements_added ?bf)
             @ to_le32 (false_positive_probability ?bf) @ [4]))\<rparr>"
  have 5: "bloom_filter_export sample_fs ?bf ''filter.blm'' = Inr (BLOOM_SUCCESS, ?fs')"
    by (rule export_open [OF w 1 2])
  have 6: "updatable ?fs' ''filter.blm''" by (simp add: sample_fs_def)
  from export_import_roundtrip [OF 1 2 3 4 5 6, of sample_filter] 5 show ?thesis by blast
qed

section \<open>Construction: which inputs are refused\<close>

text \<open>
  The status of construction, and what a refusal leaves: the filter is refused exactly when
  the capacity is 0 or one of the two comparisons \<open>rate <= 0.0\<close>, \<open>rate >= 1.0\<close> holds,
  and a refused construction leaves the structure as it was. For every rate that is not a
  NaN the two comparisons say that the rate is outside the open interval (0, 1).
\<close>

lemmas float_defs = float_le_def float_ge_def float_value_def float_is_inf_def float_sign_def
  float_is_nan_def float_exponent_def float_mantissa_def

lemma init_status:
  "(fst (bloom_filter_init fp md5 bf n p hf) = BLOOM_FAILURE) = (n = 0 \<or> float_le p 0 \<or> float_ge p 1)"
proof -
  have "unat n \<le> 2 ^ 64 - 1" using unsigned_less [of n, where 'a = nat] by simp
  then have "\<not> unat n > 2 ^ 64 - 1" by simp
  then show ?thesis
    by (simp add: bloom_filter_init_def Let_def)
qed

lemma init_failure_unchanged:
  assumes "fst (bloom_filter_init fp md5 bf n p hf) = BLOOM_FAILURE"
  shows "snd (bloom_filter_init fp md5 bf n p hf) = bf"
proof -
  from assms have "n = 0 \<or> float_le p 0 \<or> float_ge p 1" by (simp add: init_status)
  then show ?thesis by (auto simp: bloom_filter_init_def)
qed

lemma float_range:
  assumes "\<not> float_is_nan p"
  shows "(float_le p 0 \<or> float_ge p 1) = (float_is_inf p \<or> \<not> (0 < float_value p \<and> float_value p < 1))"
  using assms by (auto simp: float_le_def float_ge_def)

lemma sample_filter_init:
  "bloom_filter_init sample_arith sample_md5 bf0 2 0x3F000000 (Some sample_hash) = (BLOOM_SUCCESS, sample_filter)"
  by (simp add: bloom_filter_init_def float_defs calculate_optimal_hashes_def Let_def
      sample_arith_def bloom_filter_set_hash_function_def c_calloc_def sample_filter_def)

text \<open>
  What an accepted construction leaves. With a byte count that covers the bits the result
  is a filter in the sense of \<open>filter_ok\<close>, and the default strategy keeps the hash
  contract on every item when the number of bits is not 0.
\<close>

lemma init_fields:
  assumes "bloom_filter_init fp md5 bf n p hf = (BLOOM_SUCCESS, bf')"
  shows "estimated_elements bf' = n" and "false_positive_probability bf' = p"
    and "hash_function bf' = Some (case hf of None \<Rightarrow> md5_hash_default md5 | Some h \<Rightarrow> h)"
    and "n \<noteq> 0" and "\<not> float_le p 0" and "\<not> float_ge p 1"
  using assms
  by (auto simp: bloom_filter_init_def calculate_optimal_hashes_def
      bloom_filter_set_hash_function_def Let_def split: if_splits option.splits)

lemma init_filter_ok:
  assumes "bloom_filter_init fp md5 bf n p hf = (BLOOM_SUCCESS, bf')"
    and "0 \<le> bloom_length bf'" and "uint (number_bits bf') \<le> 8 * bloom_length bf'"
  shows "filter_ok bf'"
proof -
  from init_exportable(3) [OF assms(1)] assms(2)
  have b: "bloom bf' = Some (replicate (nat (bloom_length bf')) 0)" by (simp add: c_calloc_def)
  have "int (unat (number_bits bf')) \<le> 8 * bloom_length bf'" using assms(3) by simp
  then have "unat (number_bits bf') \<le> 8 * nat (bloom_length bf')" using assms(2) by linarith
  then show ?thesis
    using b assms(2) init_fields(3) [OF assms(1)] by (simp add: filter_ok_def)
qed

lemma init_default_hashes_ok:
  assumes "bloom_filter_init fp md5 bf n p None = (BLOOM_SUCCESS, bf')"
    and "number_bits bf' \<noteq> 0" and "0 \<le> sint (number_hashes bf')"
    and "\<forall>bs. length (md5 bs) = MD5_DIGEST_LENGTH"
  shows "hashes_ok bf' x"
  using init_fields(3) [OF assms(1)] md5_hash_default_contract [OF assms(3) assms(2) assms(4)]
  by (simp add: hashes_ok_def)

text \<open>
  Claim C4, at a rate that is not a number. The float \<open>0x7FC00000\<close> is a NaN, so it is
  not in the open interval (0, 1); both comparisons of the guard are false on it, and
  construction with capacity 2 returns \<open>BLOOM_SUCCESS\<close> and stores the NaN as the filter's
  \<open>false_positive_probability\<close>.
\<close>

theorem init_accepts_nan:
  "float_is_nan 0x7FC00000
   \<and> fst (bloom_filter_init sample_arith sample_md5 sample_filter 2 0x7FC00000 None) = BLOOM_SUCCESS
   \<and> false_positive_probability
        (snd (bloom_filter_init sample_arith sample_md5 sample_filter 2 0x7FC00000 None)) = 0x7FC00000"
  by (simp add: bloom_filter_init_def float_defs calculate_optimal_hashes_def Let_def
      bloom_filter_set_hash_function_def)

section \<open>Teardown\<close>

lemma destroy_twice:
  "bloom_filter_destroy (snd (bloom_filter_destroy bf)) = bloom_filter_destroy bf"
  by (simp add: bloom_filter_destroy_def)

lemma destroy_fields:
  "fst (bloom_filter_destroy bf) = BLOOM_SUCCESS"
  "bloom (snd (bloom_filter_destroy bf)) = None"
  "elements_added (snd (bloom_filter_destroy bf)) = 0"
  "estimated_elements (snd (bloom_filter_destroy bf)) = 0"
  "false_positive_probability (snd (bloom_filter_destroy bf)) = 0"
  "number_hashes (snd (bloom_filter_destroy bf)) = 0"
  "number_bits (snd (bloom_filter_destroy bf)) = 0"
  "hash_function (snd (bloom_filter_destroy bf)) = None"
  "bloom_length (snd (bloom_filter_destroy bf)) = bloom_length bf"
  by (simp_all add: bloom_filter_destroy_def)

text \<open>
  Claim C9, on the filter of capacity 2 and rate 0.5. Teardown returns \<open>BLOOM_SUCCESS\<close>,
  sets the two pointers to \<open>NULL\<close> and five scalar fields to 0, and leaves
  \<open>bloom_length\<close> at the value it had, here 1: the function has no assignment to it.
\<close>

theorem destroy_keeps_bloom_length:
  "bloom_filter_destroy sample_filter =
     (BLOOM_SUCCESS,
      \<lparr>estimated_elements = 0, false_positive_probability = 0, number_hashes = 0,
       number_bits = 0, bloom = None, bloom_length = 1, elements_added = 0,
       hash_function = None\<rparr>)
   \<and> bloom_length (snd (bloom_filter_destroy sample_filter)) \<noteq> 0"
  by (simp add: bloom_filter_destroy_def sample_filter_def)

section \<open>The estimate of the current false-positive rate\<close>

text \<open>
  The numerator \<open>num\<close> is \<open>- number_hashes * elements_added\<close> as long as that product is at
  most \<open>2 ^ 31\<close>; the function then computes what the specification's formula says.
\<close>

lemma rate_num_uint:
  "uint (rate_num bf) = take_bit 32 (- (uint (number_hashes bf) * uint (elements_added bf)))"
proof -
  let ?k = "number_hashes bf" and ?e = "elements_added bf"
  let ?a = "ucast (- ?k) :: 64 word"
  have r: "rate_num bf = ucast (?a * ?e)" by (simp add: rate_num_def)
  have a: "uint ?a = take_bit 32 (- uint ?k)"
  proof -
    have "uint ?a = take_bit 64 (uint (- ?k))" by (simp add: unsigned_ucast_eq)
    also have "uint (- ?k) = take_bit 32 (- uint ?k)"
      using uint_word_arith_bintrs(4) [of ?k] by simp
    finally show ?thesis by (simp add: min_def)
  qed
  have "uint (rate_num bf) = take_bit 32 (uint (?a * ?e))"
    unfolding r by (simp add: unsigned_ucast_eq)
  also have "uint (?a * ?e) = take_bit 64 (uint ?a * uint ?e)"
    using uint_word_arith_bintrs(3) [of ?a ?e] by simp
  finally have "uint (rate_num bf) = take_bit 32 (uint ?a * uint ?e)"
    by (simp add: min_def)
  also have "\<dots> = take_bit 32 (take_bit 32 (uint ?a) * take_bit 32 (uint ?e))"
    by (simp only: take_bit_mult)
  also have "take_bit 32 (uint ?a) = take_bit 32 (- uint ?k)"
    by (simp add: a)
  finally have "uint (rate_num bf) = take_bit 32 (take_bit 32 (- uint ?k) * take_bit 32 (uint ?e))" .
  then show ?thesis by (simp only: take_bit_mult mult_minus_left)
qed

lemma rate_num_small:
  assumes "unat (number_hashes bf) * unat (elements_added bf) \<le> 2147483648"
  shows "sint (rate_num bf) = - int (unat (number_hashes bf) * unat (elements_added bf))"
proof -
  let ?x = "- (uint (number_hashes bf) * uint (elements_added bf))"
  have x: "?x = - int (unat (number_hashes bf) * unat (elements_added bf))"
    by simp
  have "rate_num bf = word_of_int (uint (rate_num bf))" by simp
  also have "\<dots> = word_of_int ?x"
    unfolding rate_num_uint by (subst word_of_int_eq_iff) simp
  finally have "sint (rate_num bf) = signed_take_bit 31 ?x"
    by (simp only: signed_of_int) simp
  also have "\<dots> = ?x"
  proof (rule signed_take_bit_int_eq_self)
    have "int (unat (number_hashes bf) * unat (elements_added bf)) \<le> 2147483648"
      using assms by linarith
    moreover have "(2::int) ^ 31 = 2147483648" by simp
    ultimately show "- (2 ^ 31) \<le> ?x" unfolding x by linarith
    have "0 \<le> uint (number_hashes bf) * uint (elements_added bf)" by simp
    moreover have "(2::int) ^ 31 = 2147483648" by simp
    ultimately show "?x < 2 ^ 31" by linarith
  qed
  finally show ?thesis by (simp only: x)
qed

lemma rate_agrees_when_small:
  assumes "unat (number_hashes bf) * unat (elements_added bf) \<le> 2147483648"
  shows "bloom_filter_current_false_positive_rate bf = spec_rate bf"
  by (simp only: bloom_filter_current_false_positive_rate_def spec_rate_def Let_def
      rate_num_small [OF assms]) simp

text \<open>
  Claim C6, on the filter of capacity \<open>10 ^ 9\<close> after 306783379 insertions. The product
  \<open>7 * 306783379 = 2147483653\<close> does not fit an \<open>int\<close>: \<open>num\<close> is \<open>2147483643\<close>, a
  positive number, so \<open>exp(d)\<close> is above 1 and the seventh power of \<open>1 - e\<close> is negative,
  where the specification's formula gives a positive rate.
\<close>

theorem rate_overflow:
  "sint (rate_num large_filter) = 2147483643
   \<and> bloom_filter_current_false_positive_rate large_filter < 0
   \<and> 0 < spec_rate large_filter"
proof -
  have n: "sint (rate_num large_filter) = 2147483643"
    by (simp add: rate_num_def large_filter_def)
  have k: "unat (number_hashes large_filter) = 7" by (simp add: large_filter_def)
  have m: "unat (number_bits large_filter) = 9585058424" by (simp add: large_filter_def)
  have e: "unat (elements_added large_filter) = 306783379" by (simp add: large_filter_def)
  have "(1::real) < exp (2147483643 / 9585058424)" by simp
  then have "(1 - exp (2147483643 / 9585058424 :: real)) ^ 7 < 0" by simp
  then have a: "bloom_filter_current_false_positive_rate large_filter < 0"
    by (simp add: bloom_filter_current_false_positive_rate_def Let_def n k m)
  have "exp (- (7 * 306783379) / 9585058424 :: real) < 1" by simp
  then have "0 < (1 - exp (- (7 * 306783379) / 9585058424 :: real)) ^ 7" by simp
  then have b: "0 < spec_rate large_filter"
    by (simp add: spec_rate_def k m e)
  from n a b show ?thesis by blast
qed

section \<open>The sizing formulas in exact arithmetic\<close>


lemma s1: "(- 1 :: real) ^ n * (- 1) ^ Suc n = - 1"
proof -
  have "(- 1 :: real) ^ n * (- 1) ^ Suc n = (- 1) ^ (Suc (2 * n))"
    by (simp add: power_add [symmetric])
  also have "\<dots> = - 1" by simp
  finally show ?thesis .
qed







































end
